theory Spec2Isabelle
  imports Complex_Main "HOL-Library.Monad_Syntax" "HOL-Library.Multiset"
begin

section \<open>Conventions of the embedding\<close>

text \<open>
  The functions of \<^verbatim>\<open>graphlearning.py\<close> work on numpy arrays and scipy sparse matrices.
  A one-dimensional array is a list, a matrix is the list of its rows, and a floating
  point entry is a real number, so every statement below about values is a statement in
  exact arithmetic.  A function that raises (IndexError, ValueError) returns \<open>None\<close>;
  a function that mutates an argument returns the new contents of that argument.
\<close>

type_synonym vec = "real list"
type_synonym mat = "real list list"

subsection \<open>Indexing as Python does it\<close>

definition py_index :: "nat \<Rightarrow> int \<Rightarrow> nat option" where
  \<comment> \<open>position addressed by index \<open>i\<close> in an array of length \<open>n\<close>; negative indices wrap once\<close>
  "py_index n i =
     (if 0 \<le> i \<and> i < int n then Some (nat i)
      else if - int n \<le> i \<and> i < 0 then Some (nat (int n + i))
      else None)"

definition py_get :: "'a list \<Rightarrow> int \<Rightarrow> 'a option" where
  "py_get xs i = map_option (\<lambda>k. xs ! k) (py_index (length xs) i)"

definition py_set :: "'a list \<Rightarrow> int \<Rightarrow> 'a \<Rightarrow> 'a list option" where
  "py_set xs i v = map_option (\<lambda>k. xs[k := v]) (py_index (length xs) i)"

fun put_each :: "'a list \<Rightarrow> int list \<Rightarrow> 'a list \<Rightarrow> 'a list option" where
  "put_each u [] [] = Some u"
| "put_each u (i # is) (x # xs) =
     (case py_set u i x of None \<Rightarrow> None | Some u' \<Rightarrow> put_each u' is xs)"
| "put_each u _ _ = None"

definition np_put :: "'a list \<Rightarrow> int list \<Rightarrow> 'a list \<Rightarrow> 'a list option" where
  \<comment> \<open>\<^verbatim>\<open>u[I] = g\<close> for an index array \<open>I\<close>: element by element, a one-element \<open>g\<close> is broadcast\<close>
  "np_put u I g =
     (if length g = length I then put_each u I g
      else if length g = 1 then put_each u I (replicate (length I) (hd g))
      else None)"

definition np_put_const :: "'a list \<Rightarrow> int list \<Rightarrow> 'a \<Rightarrow> 'a list option" where
  \<comment> \<open>\<^verbatim>\<open>u[I] = c\<close> for a scalar \<open>c\<close>\<close>
  "np_put_const u I c = put_each u I (replicate (length I) c)"

definition np_take :: "'a list \<Rightarrow> int list \<Rightarrow> 'a list option" where
  \<comment> \<open>\<^verbatim>\<open>u[l]\<close> for an index array \<open>l\<close>: a new array\<close>
  "np_take u l =
     (if list_all (\<lambda>i. py_index (length u) i \<noteq> None) l
      then Some (map (\<lambda>i. u ! the (py_index (length u) i)) l) else None)"

definition mask_select :: "'a list \<Rightarrow> bool list \<Rightarrow> 'a list option" where
  \<comment> \<open>\<^verbatim>\<open>b[idx]\<close> for a boolean mask\<close>
  "mask_select xs idx =
     (if length idx = length xs then Some (map fst (filter snd (zip xs idx))) else None)"

fun mask_fill :: "'a list \<Rightarrow> bool list \<Rightarrow> 'a list \<Rightarrow> 'a list" where
  "mask_fill (x # xs) (True # bs) (v # vs) = v # mask_fill xs bs vs"
| "mask_fill (x # xs) (False # bs) vs = x # mask_fill xs bs vs"
| "mask_fill xs _ _ = xs"

definition mask_put :: "'a list \<Rightarrow> bool list \<Rightarrow> 'a list \<Rightarrow> 'a list option" where
  \<comment> \<open>\<^verbatim>\<open>u[idx] = v\<close> for a boolean mask: \<open>v\<close> has one entry per \<open>True\<close>, or one entry in all\<close>
  "mask_put u idx v =
     (let m = length (filter id idx) in
      if length idx \<noteq> length u then None
      else if length v = m then Some (mask_fill u idx v)
      else if length v = 1 then Some (mask_fill u idx (replicate m (hd v)))
      else None)"

subsection \<open>Matrices\<close>

definition shape0 :: "'a list list \<Rightarrow> nat" where
  "shape0 A = length A"

definition is_matrix :: "nat \<Rightarrow> nat \<Rightarrow> 'a list list \<Rightarrow> bool" where
  "is_matrix r c A = (length A = r \<and> list_all (\<lambda>row. length row = c) A)"

definition dot :: "vec \<Rightarrow> vec \<Rightarrow> real" where
  "dot x y = sum_list (map2 (*) x y)"

definition matvec :: "mat \<Rightarrow> vec \<Rightarrow> vec option" where
  \<comment> \<open>\<^verbatim>\<open>A*x\<close> for a sparse matrix and a vector; a dimension mismatch raises\<close>
  "matvec A x =
     (if list_all (\<lambda>row. length row = length x) A then Some (map (\<lambda>row. dot row x) A) else None)"

definition select_cols :: "'a list list \<Rightarrow> int list \<Rightarrow> 'a list list option" where
  \<comment> \<open>\<^verbatim>\<open>L[:,I]\<close>\<close>
  "select_cols A I =
     (if list_all (\<lambda>row. np_take row I \<noteq> None) A
      then Some (map (\<lambda>row. the (np_take row I)) A) else None)"

definition mask_rows :: "'a list list \<Rightarrow> bool list \<Rightarrow> 'a list list option" where
  \<comment> \<open>\<^verbatim>\<open>L[idx,:]\<close>\<close>
  "mask_rows A idx = mask_select A idx"

definition mask_cols :: "'a list list \<Rightarrow> bool list \<Rightarrow> 'a list list option" where
  \<comment> \<open>\<^verbatim>\<open>A[:,idx]\<close>\<close>
  "mask_cols A idx =
     (if list_all (\<lambda>row. length row = length idx) A
      then Some (map (\<lambda>row. map fst (filter snd (zip row idx))) A) else None)"

definition diagonal :: "mat \<Rightarrow> vec" where
  "diagonal A = map (\<lambda>i. A ! i ! i) [0..<length A]"

definition spdiags :: "vec \<Rightarrow> nat \<Rightarrow> mat" where
  \<comment> \<open>\<^verbatim>\<open>sparse.spdiags(d,0,n,n)\<close>: the square matrix with \<open>d\<close> on its diagonal\<close>
  "spdiags d n = map (\<lambda>i. map (\<lambda>j. if i = j \<and> i < length d then d ! i else 0) [0..<n]) [0..<n]"

section \<open>Constrained linear solve\<close>

text \<open>
  \<^verbatim>\<open>constrained_solve(L,I,g,f=None,x0=None,tol=1e-10)\<close>.  The conjugate gradient routine
  \<^verbatim>\<open>splinalg.cg(A,b,x0=..,tol=..,M=..)\<close> belongs to scipy; it is the parameter \<open>cg\<close>,
  which returns the iterate and scipy's status code.
\<close>

type_synonym cg_solver = "mat \<Rightarrow> vec \<Rightarrow> vec option \<Rightarrow> real \<Rightarrow> mat \<Rightarrow> vec \<times> int"

definition constrained_solve ::
  "cg_solver \<Rightarrow> mat \<Rightarrow> int list \<Rightarrow> vec \<Rightarrow> vec option \<Rightarrow> vec option \<Rightarrow> real \<Rightarrow> vec option" where
  "constrained_solve cg L I g f x0 tol = do {
     let n = shape0 L;
     \<comment> \<open>locations of labels\<close>
     idx \<leftarrow> np_put_const (replicate n True) I False;
     \<comment> \<open>right hand side\<close>
     LI \<leftarrow> select_cols L I;
     Lg \<leftarrow> matvec LI g;
     b \<leftarrow> mask_select (map uminus Lg) idx;
     b \<leftarrow> (case f of None \<Rightarrow> Some b
          | Some f' \<Rightarrow> do {
              fi \<leftarrow> mask_select f' idx;
              if length fi = length b then Some (map2 (+) b fi) else None });
     \<comment> \<open>left hand side matrix\<close>
     A \<leftarrow> mask_rows L idx;
     A \<leftarrow> mask_cols A idx;
     \<comment> \<open>conjugate gradient with Jacobi preconditioner\<close>
     let m = shape0 A;
     let M = spdiags (map (\<lambda>a. 1 / (a + 1 / 10000000000)) (diagonal A)) m;
     v \<leftarrow> (case x0 of None \<Rightarrow> Some (fst (cg A b None tol M))
          | Some x \<Rightarrow> do {
              xi \<leftarrow> mask_select x idx;
              Some (fst (cg A b (Some xi) tol M)) });
     \<comment> \<open>add labels back into array\<close>
     u \<leftarrow> mask_put (replicate n 1) idx v;
     np_put u I g
   }"

definition cg_rhs :: cg_solver where
  \<comment> \<open>a stand-in solver for concrete runs: it returns its right-hand side unchanged\<close>
  "cg_rhs A b x t M = (b, 0)"

subsection \<open>Scatter and gather, each step of the solve succeeds\<close>

lemma py_index_in: "0 \<le> i \<Longrightarrow> i < int n \<Longrightarrow> py_index n i = Some (nat i)"
  by (simp add: py_index_def)

lemma py_set_length: "py_set xs i v = Some ys \<Longrightarrow> length ys = length xs"
  by (auto simp: py_set_def)

lemma put_each_length: "put_each u I g = Some u' \<Longrightarrow> length u' = length u"
  by (induction u I g arbitrary: u' rule: put_each.induct)
     (auto split: option.splits dest: py_set_length)

lemma put_each_lengths: "put_each u I g = Some u' \<Longrightarrow> length g = length I"
  by (induction u I g arbitrary: u' rule: put_each.induct)
     (auto split: option.splits)

lemma put_each_other:
  "put_each u I g = Some u' \<Longrightarrow> \<forall>i \<in> set I. py_index (length u) i \<noteq> Some k \<Longrightarrow> u' ! k = u ! k"
proof (induction u I g arbitrary: u' rule: put_each.induct)
  case (2 u i "is" x xs)
  from "2.prems"(1) obtain u1 where u1: "py_set u i x = Some u1" and r: "put_each u1 is xs = Some u'"
    by (auto split: option.splits)
  have len: "length u1 = length u" using u1 by (rule py_set_length)
  have "u' ! k = u1 ! k" using "2.IH"[OF u1 r] "2.prems"(2) len by simp
  moreover have "u1 ! k = u ! k" using u1 "2.prems"(2) by (auto simp: py_set_def)
  ultimately show ?case by simp
qed auto

lemma put_each_some:
  "length g = length I \<Longrightarrow> \<forall>i \<in> set I. 0 \<le> i \<and> i < int (length u) \<Longrightarrow> \<exists>u'. put_each u I g = Some u'"
proof (induction u I g rule: put_each.induct)
  case (2 u i "is" x xs)
  then show ?case by (auto simp: py_set_def py_index_in)
qed auto

lemma put_each_lookup:
  "put_each u I g = Some u' \<Longrightarrow> distinct I \<Longrightarrow> \<forall>i \<in> set I. 0 \<le> i \<and> i < int (length u) \<Longrightarrow>
   j < length I \<Longrightarrow> u' ! nat (I ! j) = g ! j"
proof (induction u I g arbitrary: u' j rule: put_each.induct)
  case (2 u i "is" x xs)
  from "2.prems"(1) obtain u1 where u1: "py_set u i x = Some u1" and r: "put_each u1 is xs = Some u'"
    by (auto split: option.splits)
  have len: "length u1 = length u" using u1 by (rule py_set_length)
  have u1eq: "u1 = u[nat i := x]" using u1 "2.prems"(3) by (auto simp: py_set_def py_index_in)
  show ?case
  proof (cases j)
    case 0
    have "\<forall>i' \<in> set is. py_index (length u1) i' \<noteq> Some (nat i)"
      using "2.prems"(2,3) len by (force simp: py_index_in eq_nat_nat_iff)
    from put_each_other[OF r this] have "u' ! nat i = u1 ! nat i" .
    moreover have "nat i < length u" using "2.prems"(3) by auto
    ultimately show ?thesis using 0 u1eq by simp
  next
    case (Suc j')
    then show ?thesis using "2.IH"[OF u1 r, of j'] "2.prems" len by simp
  qed
qed auto

lemma length_mask_filter:
  "length xs = length idx \<Longrightarrow> length (filter snd (zip xs idx)) = length (filter id idx)"
  by (induction xs idx rule: list_induct2) auto

lemma mask_select_some:
  "length xs = length idx \<Longrightarrow>
   \<exists>ys. mask_select xs idx = Some ys \<and> length ys = length (filter id idx)"
  by (simp add: mask_select_def length_mask_filter)

lemma length_mask_fill: "length (mask_fill u idx v) = length u"
  by (induction u idx v rule: mask_fill.induct) auto

lemma np_take_some:
  "\<forall>i \<in> set I. 0 \<le> i \<and> i < int (length u) \<Longrightarrow>
   \<exists>ys. np_take u I = Some ys \<and> length ys = length I"
  by (auto simp: np_take_def py_index_in list_all_iff)

lemma select_cols_some:
  assumes "is_matrix r c A" "\<forall>i \<in> set I. 0 \<le> i \<and> i < int c"
  shows "\<exists>B. select_cols A I = Some B \<and> is_matrix r (length I) B"
proof -
  have "\<exists>ys. np_take row I = Some ys \<and> length ys = length I" if "row \<in> set A" for row
  proof -
    have "length row = c" using that assms(1) by (simp add: is_matrix_def list_all_iff)
    then show ?thesis using np_take_some[of I row] assms(2) by simp
  qed
  then show ?thesis using assms(1)
    by (fastforce simp: select_cols_def is_matrix_def list_all_iff)
qed

lemma matvec_some:
  "is_matrix r c A \<Longrightarrow> length x = c \<Longrightarrow> \<exists>y. matvec A x = Some y \<and> length y = r"
  by (auto simp: matvec_def is_matrix_def list_all_iff)

lemma mask_cols_some:
  "is_matrix r c A \<Longrightarrow> length idx = c \<Longrightarrow> \<exists>B. mask_cols A idx = Some B"
  by (auto simp: mask_cols_def is_matrix_def list_all_iff)

lemma mask_rows_some:
  "is_matrix r c A \<Longrightarrow> length idx = r \<Longrightarrow> \<exists>B. mask_rows A idx = Some B \<and> is_matrix (length (filter id idx)) c B"
  unfolding mask_rows_def mask_select_def is_matrix_def
  apply (simp add: length_mask_filter list_all_iff)
  apply (auto dest!: set_zip_leftD)
  done

text \<open>
  Claim C1.  For a square matrix \<open>L\<close> of size \<open>n\<close>, distinct indices \<open>I\<close> in \<open>[0,n)\<close>,
  labels \<open>g\<close> of the same length, optional \<open>f\<close> and \<open>x0\<close> of length \<open>n\<close>, and a
  conjugate gradient routine that returns a vector as long as its right-hand side,
  \<^verbatim>\<open>constrained_solve\<close> returns a vector \<open>u\<close> of length \<open>n\<close> with \<open>u[I[j]] = g[j]\<close> for every
  position \<open>j\<close> of \<open>I\<close>: the constrained entries are assigned after the solve, whatever
  the solver returned.
\<close>

theorem constrained_solve_labels:
  assumes L: "is_matrix n n L"
    and I: "distinct I" "\<forall>i \<in> set I. 0 \<le> i \<and> i < int n"
    and g: "length g = length I"
    and f: "\<forall>f'. f = Some f' \<longrightarrow> length f' = n"
    and x0: "\<forall>x. x0 = Some x \<longrightarrow> length x = n"
    and cg: "\<And>A b x t M. length (fst (cg A b x t M)) = length b"
  shows "\<exists>u. constrained_solve cg L I g f x0 tol = Some u \<and> length u = n \<and>
             (\<forall>j < length I. u ! nat (I ! j) = g ! j)"
proof -
  have n: "shape0 L = n" using L by (simp add: is_matrix_def shape0_def)
  obtain idx where idx: "np_put_const (replicate n True) I False = Some idx"
    using put_each_some[of "replicate (length I) False" I "replicate n True"] I(2)
    by (auto simp: np_put_const_def)
  have lidx: "length idx = n" using idx put_each_length by (fastforce simp: np_put_const_def)
  obtain LI where LI: "select_cols L I = Some LI" "is_matrix n (length I) LI"
    using select_cols_some[OF L I(2)] by blast
  obtain Lg where Lg: "matvec LI g = Some Lg" "length Lg = n"
    using matvec_some[OF LI(2) g] by blast
  obtain b0 where b0: "mask_select (map uminus Lg) idx = Some b0"
      "length b0 = length (filter id idx)"
    using mask_select_some[of "map uminus Lg" idx] Lg(2) lidx by auto
  define fpart where "fpart = (case f of None \<Rightarrow> Some b0
          | Some f' \<Rightarrow> do {
              fi \<leftarrow> mask_select f' idx;
              if length fi = length b0 then Some (map2 (+) b0 fi) else None })"
  obtain b where b: "fpart = Some b" "length b = length (filter id idx)"
  proof (cases f)
    case None
    then show ?thesis using that b0 by (simp add: fpart_def)
  next
    case (Some f')
    then have "length f' = length idx" using f lidx by simp
    from mask_select_some[OF this] obtain fi where
      "mask_select f' idx = Some fi" "length fi = length (filter id idx)" by blast
    then show ?thesis using that b0 Some by (simp add: fpart_def)
  qed
  obtain A1 where A1: "mask_rows L idx = Some A1" "is_matrix (length (filter id idx)) n A1"
    using mask_rows_some[OF L] lidx by blast
  obtain A where A: "mask_cols A1 idx = Some A"
    using mask_cols_some[OF A1(2) lidx] by blast
  let ?M = "spdiags (map (\<lambda>a. 1 / (a + 1 / 10000000000)) (diagonal A)) (shape0 A)"
  define vpart where "vpart = (case x0 of None \<Rightarrow> Some (fst (cg A b None tol ?M))
          | Some x \<Rightarrow> do {
              xi \<leftarrow> mask_select x idx;
              Some (fst (cg A b (Some xi) tol ?M)) })"
  obtain v where v: "vpart = Some v" "length v = length (filter id idx)"
  proof (cases x0)
    case None
    then show ?thesis using that b cg by (simp add: vpart_def)
  next
    case (Some x)
    then have "length x = length idx" using x0 lidx by simp
    from mask_select_some[OF this] obtain xi where "mask_select x idx = Some xi" by blast
    then show ?thesis using that b cg Some by (simp add: vpart_def)
  qed
  define u1 where "u1 = mask_fill (replicate n (1::real)) idx v"
  have u1: "mask_put (replicate n 1) idx v = Some u1" "length u1 = n"
    using v(2) lidx by (simp_all add: mask_put_def u1_def length_mask_fill)
  obtain u where u: "put_each u1 I g = Some u"
    using put_each_some[OF g, of u1] I(2) u1(2) by auto
  have lu: "length u = n" using put_each_length[OF u] u1(2) by simp
  have res: "constrained_solve cg L I g f x0 tol = Some u"
    unfolding constrained_solve_def
    using idx LI(1) Lg(1) b0(1) b(1) A1(1) A v(1) u1(1) u g
    by (simp add: n Let_def fpart_def vpart_def np_put_def)
  have "\<forall>j < length I. u ! nat (I ! j) = g ! j"
    using put_each_lookup[OF u I(1)] I(2) u1(2) by simp
  with res lu show ?thesis by blast
qed

theorem constrained_solve_labels_witness:
  "is_matrix 2 2 [[1, -1], [-1, 1::real]] \<and> distinct [0::int] \<and>
   (0::int) \<le> 0 \<and> (0::int) < int 2 \<and> length [5::real] = length [0::int] \<and>
   (\<exists>u. constrained_solve cg_rhs [[1, -1], [-1, 1]] [0] [5] None None (1 / 10000000000) = Some u \<and>
        length u = 2 \<and> (\<forall>j < length [0::int]. u ! nat ([0] ! j) = [5::real] ! j))"
  using constrained_solve_labels [where n = 2 and L = "[[1, -1], [-1, 1]]" and I = "[0]"
      and g = "[5]" and f = None and ?x0.0 = None and cg = cg_rhs and tol = "1 / 10000000000"]
  by (simp add: is_matrix_def cg_rhs_def)

section \<open>Label encoding\<close>

text \<open>
  \<^verbatim>\<open>LabelsToVec(L)\<close> returns the one-hot matrix and the sorted distinct labels; it also
  writes into its argument, so the model returns the final contents of \<open>L\<close> as third
  component.  \<^verbatim>\<open>np.unique\<close> sorts the distinct values; \<^verbatim>\<open>L[L==labels[i]] = i\<close> is
  \<open>relabel\<close>; \<^verbatim>\<open>astype(int)\<close> truncates towards zero; \<^verbatim>\<open>X[L,range(n)] = 1\<close> is \<open>one_hot\<close>.
\<close>

definition np_unique :: "real list \<Rightarrow> real list" where
  "np_unique L = sort (remdups L)"

definition relabel :: "real list \<Rightarrow> real \<Rightarrow> nat \<Rightarrow> real list" where
  "relabel L lab i = map (\<lambda>x. if x = lab then real i else x) L"

definition astype_int :: "real \<Rightarrow> int" where
  "astype_int x = (if 0 \<le> x then \<lfloor>x\<rfloor> else \<lceil>x\<rceil>)"

definition one_hot :: "nat \<Rightarrow> int list \<Rightarrow> mat option" where
  "one_hot k L =
     (if list_all (\<lambda>c. py_index k c \<noteq> None) L
      then Some (map (\<lambda>r. map (\<lambda>c. if py_index k c = Some r then 1 else 0) L) [0..<k])
      else None)"

definition relabel_all :: "real list \<Rightarrow> real list \<Rightarrow> real list" where
  "relabel_all labels L = fold (\<lambda>i L'. relabel L' (labels ! i) i) [0..<length labels] L"

definition LabelsToVec :: "real list \<Rightarrow> (mat \<times> real list \<times> real list) option" where
  "LabelsToVec L =
     (let n = length L;
          labels = np_unique L;
          k = length labels;
          L1 = relabel_all labels L;
          Li = map astype_int L1
      in map_option (\<lambda>X. (X, labels, L1)) (one_hot k Li))"

subsection \<open>Labels that are natural numbers are replaced by their rank\<close>

lemma np_unique_props: "sorted (np_unique L)" "distinct (np_unique L)" "set (np_unique L) = set L"
  by (simp_all add: np_unique_def)

lemma sorted_distinct_nat_ge:
  assumes "sorted xs" "distinct xs" "\<forall>x \<in> set xs. x \<in> \<nat>" "i < length xs"
  shows "real i \<le> xs ! i"
  using assms(4)
proof (induction i)
  case 0
  then have "xs ! 0 \<in> \<nat>" using assms(3) by simp
  then obtain a where "xs ! 0 = real a" by (elim Nats_cases)
  then show ?case by simp
next
  case (Suc i)
  then have le: "real i \<le> xs ! i" by simp
  have "xs ! i \<le> xs ! Suc i" using assms(1) Suc.prems by (simp add: sorted_iff_nth_mono)
  moreover have "xs ! i \<noteq> xs ! Suc i" using assms(2) Suc.prems by (simp add: nth_eq_iff_index_eq)
  ultimately have lt: "xs ! i < xs ! Suc i" by simp
  have "xs ! i \<in> \<nat>" "xs ! Suc i \<in> \<nat>" using assms(3) Suc.prems by simp_all
  then obtain a b where a: "xs ! i = real a" and b: "xs ! Suc i = real b"
    by (elim Nats_cases)
  from lt le a b show ?case by simp
qed

lemma relabel_prefix:
  assumes "sorted labels" "distinct labels" "\<forall>x \<in> set labels. x \<in> \<nat>" "i \<le> length labels"
     "j < length L"
  shows "length (fold (\<lambda>i L'. relabel L' (labels ! i) i) [0..<i] L) = length L \<and>
     ((\<exists>i' < i. L ! j = labels ! i' \<and> fold (\<lambda>i L'. relabel L' (labels ! i) i) [0..<i] L ! j = real i')
      \<or> ((\<forall>i' < i. L ! j \<noteq> labels ! i') \<and> fold (\<lambda>i L'. relabel L' (labels ! i) i) [0..<i] L ! j = L ! j))"
  using assms(4)
proof (induction i)
  case 0
  then show ?case by simp
next
  case (Suc i)
  let ?F = "fold (\<lambda>i L'. relabel L' (labels ! i) i) [0..<i] L"
  have IH: "length ?F = length L" 
    "(\<exists>i' < i. L ! j = labels ! i' \<and> ?F ! j = real i') \<or> ((\<forall>i' < i. L ! j \<noteq> labels ! i') \<and> ?F ! j = L ! j)"
    using Suc by auto
  have step: "fold (\<lambda>i L'. relabel L' (labels ! i) i) [0..<Suc i] L = relabel ?F (labels ! i) i"
    by simp
  have ge: "real i \<le> labels ! i" using sorted_distinct_nat_ge[OF assms(1-3)] Suc.prems by simp
  from IH(2) show ?case
  proof
    assume "\<exists>i' < i. L ! j = labels ! i' \<and> ?F ! j = real i'"
    then obtain i' where i': "i' < i" "L ! j = labels ! i'" "?F ! j = real i'" by blast
    then have "?F ! j \<noteq> labels ! i" using ge by auto
    then have "relabel ?F (labels ! i) i ! j = real i'" using i'(3) IH(1) assms(5)
      by (simp add: relabel_def)
    then show ?thesis unfolding step using i' IH(1) by (auto simp: relabel_def intro!: exI[of _ i'])
  next
    assume a: "(\<forall>i' < i. L ! j \<noteq> labels ! i') \<and> ?F ! j = L ! j"
    show ?thesis
    proof (cases "L ! j = labels ! i")
      case True
      then have "relabel ?F (labels ! i) i ! j = real i" using a IH(1) assms(5) by (simp add: relabel_def)
      then show ?thesis unfolding step using True IH(1) by (auto simp: relabel_def intro!: exI[of _ i])
    next
      case False
      then have "relabel ?F (labels ! i) i ! j = L ! j" using a IH(1) assms(5) by (simp add: relabel_def)
      moreover have "\<forall>i' < Suc i. L ! j \<noteq> labels ! i'" using a False by (auto simp: less_Suc_eq)
      ultimately show ?thesis unfolding step using IH(1) by (auto simp: relabel_def)
    qed
  qed
qed

lemma relabel_all_nat:
  assumes "\<forall>x \<in> set L. x \<in> \<nat>" "j < length L"
  shows "\<exists>i < length (np_unique L). np_unique L ! i = L ! j \<and> relabel_all (np_unique L) L ! j = real i"
proof -
  let ?labels = "np_unique L"
  have "L ! j \<in> set ?labels" using assms(2) by (simp add: np_unique_props)
  then obtain i0 where i0: "i0 < length ?labels" "?labels ! i0 = L ! j" by (auto simp: in_set_conv_nth)
  have "\<forall>x \<in> set ?labels. x \<in> \<nat>" using assms(1) by (simp add: np_unique_props)
  from relabel_prefix[OF np_unique_props(1,2) this le_refl assms(2)]
  show ?thesis unfolding relabel_all_def using \<open>L ! j \<in> set ?labels\<close>
    by (auto simp: in_set_conv_nth)
qed

text \<open>
  Claim C10.  \<^verbatim>\<open>LabelsToVec\<close> overwrites its argument.  The loop replaces the labels one
  after the other, so a written index \<open>i\<close> that equals a later label is replaced again:
  on \<open>[-1, 0]\<close> the entry \<open>-1\<close> becomes \<open>0\<close>, then both entries become \<open>1\<close>, and the
  one-hot matrix puts both vertices in class 1.  The rank of \<open>-1\<close> in the sorted labels is 0.
\<close>

theorem LabelsToVec_overwrites_argument:
  "LabelsToVec [-1, 0] = Some ([[0, 0], [1, 1]], [-1, 0], [1, 1])"
  by (simp add: LabelsToVec_def np_unique_def relabel_def relabel_all_def astype_int_def
      one_hot_def py_index_def upt_rec Let_def)

section \<open>Graph infinity Laplacian\<close>

definition np_broadcast2 :: "('a \<Rightarrow> 'b \<Rightarrow> 'c) \<Rightarrow> 'a list \<Rightarrow> 'b list \<Rightarrow> 'c list option" where
  \<comment> \<open>an elementwise operation on two one-dimensional arrays, with numpy's broadcasting\<close>
  "np_broadcast2 f xs ys =
     (if length xs = length ys then Some (map2 f xs ys)
      else if length xs = 1 then Some (map (f (hd xs)) ys)
      else if length ys = 1 then Some (map (\<lambda>x. f x (hd ys)) xs)
      else None)"

definition shape1 :: "'a list list \<Rightarrow> nat" where
  "shape1 A = (case A of [] \<Rightarrow> 0 | row # _ \<Rightarrow> length row)"

definition find_entries :: "mat \<Rightarrow> (int \<times> int \<times> real) list" where
  \<comment> \<open>the nonzero entries as (row, column, value), column after column, rows ascending\<close>
  "find_entries W =
     [(int i, int j, W ! i ! j). j \<leftarrow> [0..<shape1 W], i \<leftarrow> [0..<shape0 W], W ! i ! j \<noteq> 0]"

definition sparse_find :: "mat \<Rightarrow> int list \<times> int list \<times> real list" where
  \<comment> \<open>\<^verbatim>\<open>sparse.find(W)\<close>: the row indices, column indices and values of the nonzero entries\<close>
  "sparse_find W =
     (let entries = find_entries W
      in (map fst entries, map (fst \<circ> snd) entries, map (snd \<circ> snd) entries))"

definition coo_matrix :: "real list \<Rightarrow> int list \<Rightarrow> int list \<Rightarrow> nat \<Rightarrow> mat option" where
  \<comment> \<open>\<^verbatim>\<open>sparse.coo_matrix((data,(I,J)),shape=(n,n)).tocsr()\<close>: duplicates are summed\<close>
  "coo_matrix data I J n =
     (if length I = length data \<and> length J = length data \<and>
         list_all (\<lambda>i. 0 \<le> i \<and> i < int n) I \<and> list_all (\<lambda>j. 0 \<le> j \<and> j < int n) J
      then Some (map (\<lambda>r. map (\<lambda>c. sum_list (map (\<lambda>(i, j, v). if i = int r \<and> j = int c then v else 0)
                                                (zip I (zip J data)))) [0..<n]) [0..<n])
      else None)"

definition np_min :: "real list \<Rightarrow> real" where
  "np_min xs = fold min (tl xs) (hd xs)"

definition np_max :: "real list \<Rightarrow> real" where
  "np_max xs = fold max (tl xs) (hd xs)"

definition min_axis1 :: "mat \<Rightarrow> vec option" where
  \<comment> \<open>\<^verbatim>\<open>M.min(axis=1)\<close> of a sparse matrix: over all entries of a row, stored or not\<close>
  "min_axis1 M = (if shape1 M = 0 then None else Some (map np_min M))"

definition max_axis1 :: "mat \<Rightarrow> vec option" where
  "max_axis1 M = (if shape1 M = 0 then None else Some (map np_max M))"

text \<open>
  \<^verbatim>\<open>graph_infinity_laplacian(W,u,I=None,J=None,V=None)\<close>.  scipy's \<^verbatim>\<open>min(axis=1)\<close> and
  \<^verbatim>\<open>max(axis=1)\<close> of a sparse matrix take all entries of a row into account, the
  entries that are not stored counting as zero; the model therefore reduces the dense rows.
\<close>

definition graph_infinity_laplacian ::
  "mat \<Rightarrow> vec \<Rightarrow> int list option \<Rightarrow> int list option \<Rightarrow> real list option \<Rightarrow> vec option" where
  "graph_infinity_laplacian W u I J V = do {
     let n = shape0 W;
     (I, J, V) \<leftarrow> (if I = None \<or> J = None then Some (sparse_find W)
                 else case V of None \<Rightarrow> None | Some V' \<Rightarrow> Some (the I, the J, V'));
     uJ \<leftarrow> np_take u J;
     uI \<leftarrow> np_take u I;
     du \<leftarrow> np_broadcast2 (-) uJ uI;
     data \<leftarrow> np_broadcast2 (*) V du;
     M \<leftarrow> coo_matrix data I J n;
     mn \<leftarrow> min_axis1 M;
     mx \<leftarrow> max_axis1 M;
     Some (map2 (+) mn mx)
   }"

text \<open>
  The operator as the specification words it: minimum and maximum over the stored
  edges of row \<open>i\<close> only.
\<close>

definition neighbor_terms :: "mat \<Rightarrow> vec \<Rightarrow> nat \<Rightarrow> real list" where
  "neighbor_terms W u i = [W ! i ! j * (u ! j - u ! i). j \<leftarrow> [0..<shape1 W], W ! i ! j \<noteq> 0]"

definition infinity_laplacian_over_neighbors :: "mat \<Rightarrow> vec \<Rightarrow> nat \<Rightarrow> real" where
  "infinity_laplacian_over_neighbors W u i = np_min (neighbor_terms W u i) + np_max (neighbor_terms W u i)"


lemma np_min_Min: "xs \<noteq> [] \<Longrightarrow> np_min xs = Min (set xs)"
proof (cases xs)
  case (Cons x ys)
  show ?thesis unfolding np_min_def Cons list.sel by (rule Min.set_eq_fold[symmetric])
qed simp

lemma np_max_Max: "xs \<noteq> [] \<Longrightarrow> np_max xs = Max (set xs)"
proof (cases xs)
  case (Cons x ys)
  show ?thesis unfolding np_max_def Cons list.sel by (rule Max.set_eq_fold[symmetric])
qed simp

lemma sum_list_concat: "sum_list (concat xss) = sum_list (map sum_list (xss::real list list))"
  by (induction xss) auto

lemma shape1_matrix: "is_matrix r c A \<Longrightarrow> 0 < r \<Longrightarrow> shape1 A = c"
  by (cases A) (auto simp: is_matrix_def shape1_def)

lemma sparse_find_entries:
  "sparse_find W = (map fst (find_entries W), map (fst \<circ> snd) (find_entries W), map (snd \<circ> snd) (find_entries W))"
  by (simp add: sparse_find_def Let_def)

lemma find_entries_range:
  "(i, j, v) \<in> set (find_entries W) \<Longrightarrow> 0 \<le> i \<and> i < int (shape0 W) \<and> 0 \<le> j \<and> j < int (shape1 W)"
  by (auto simp: find_entries_def)

lemma sum_list_if_single:
  "c < n \<Longrightarrow> sum_list (map (\<lambda>j. if j = c then (f j::real) else 0) [0..<n]) = f c"
  by (simp add: interv_sum_list_conv_sum_set_nat)

lemma find_entries_sum:
  assumes "r < shape0 W" "c < shape1 W"
  shows "sum_list (map (\<lambda>(i, j, v). if i = int r \<and> j = int c then v * h i j else 0) (find_entries W))
         = W ! r ! c * h (int r) (int c)"
proof -
  have "sum_list (map (\<lambda>(i, j, v). if i = int r \<and> j = int c then v * h i j else 0) (find_entries W))
      = sum_list (map (\<lambda>j. sum_list (map (\<lambda>i. if i = r \<and> j = c then W ! r ! c * h (int r) (int c) else 0)
            [0..<shape0 W])) [0..<shape1 W])"
    unfolding find_entries_def map_concat sum_list_concat map_map comp_def
    by (intro arg_cong[where f = sum_list] map_cong refl) auto
  also have "\<dots> = sum_list (map (\<lambda>j. if j = c then W ! r ! c * h (int r) (int c) else 0) [0..<shape1 W])"
    using assms(1)
    by (intro arg_cong[where f = sum_list] map_cong refl) (simp add: interv_sum_list_conv_sum_set_nat)
  also have "\<dots> = W ! r ! c * h (int r) (int c)"
    using assms(2) by (simp add: interv_sum_list_conv_sum_set_nat)
  finally show ?thesis .
qed


lemma np_take_nonneg:
  "list_all (\<lambda>i. 0 \<le> i \<and> i < int (length u)) l \<Longrightarrow> np_take u l = Some (map (\<lambda>i. u ! nat i) l)"
  by (auto simp: np_take_def list_all_iff py_index_def)

text \<open>
  Claim C7 as stated fails: on the graph with the single edge \<open>{0,1}\<close> of weight 1 and
  \<open>u = (0,1)\<close>, vertex 0 has the one neighbour term \<open>1\<close>, so minimum plus maximum over its
  neighbours is \<open>2\<close>; the code returns \<open>1\<close>, the minimum being taken with the zero of the
  entry \<open>(0,0)\<close> that is not stored.
\<close>

theorem graph_infinity_laplacian_not_neighbors_only:
  "map_option (\<lambda>r. r ! 0) (graph_infinity_laplacian [[0, 1], [1, 0]] [0, 1] None None None) = Some 1
   \<and> infinity_laplacian_over_neighbors [[0, 1], [1, 0]] [0, 1] 0 = 2"
  by code_simp

text \<open>
  Claim C7, amended.  For a square weight matrix of size \<open>n > 0\<close> and a vector \<open>u\<close> of length
  \<open>n\<close>, entry \<open>i\<close> of the result is the minimum plus the maximum of \<open>w(i,j)(u(j) - u(i))\<close>
  over all vertices \<open>j\<close> of the graph, where \<open>w(i,j) = 0\<close> when \<open>j\<close> is not a neighbour of \<open>i\<close>.
\<close>

theorem graph_infinity_laplacian_all_vertices:
  assumes W: "is_matrix n n W" and n: "0 < n" and u: "length u = n" and i: "i < n"
  shows "\<exists>r. graph_infinity_laplacian W u None None None = Some r \<and> length r = n \<and>
           r ! i = Min ((\<lambda>j. W ! i ! j * (u ! j - u ! i)) ` {0..<n})
                 + Max ((\<lambda>j. W ! i ! j * (u ! j - u ! i)) ` {0..<n})"
proof -
  let ?E = "find_entries W"
  let ?I = "map fst ?E" and ?J = "map (fst \<circ> snd) ?E" and ?V = "map (snd \<circ> snd) ?E"
  have s0: "shape0 W = n" using W by (simp add: is_matrix_def shape0_def)
  have s1: "shape1 W = n" using shape1_matrix[OF W n] .
  have rng: "list_all (\<lambda>i. 0 \<le> i \<and> i < int n) ?I" "list_all (\<lambda>j. 0 \<le> j \<and> j < int n) ?J"
    using find_entries_range[of _ _ _ W] by (auto simp: list_all_iff s0 s1)
  have uJ: "np_take u ?J = Some (map (\<lambda>i. u ! nat i) ?J)"
   and uI: "np_take u ?I = Some (map (\<lambda>i. u ! nat i) ?I)"
    using rng u by (simp_all add: np_take_nonneg)
  let ?data = "map (\<lambda>(i, j, v). v * (u ! nat j - u ! nat i)) ?E"
  have du: "np_broadcast2 (-) (map (\<lambda>i. u ! nat i) ?J) (map (\<lambda>i. u ! nat i) ?I)
      = Some (map (\<lambda>(i, j, v). u ! nat j - u ! nat i) ?E)"
    by (simp add: np_broadcast2_def zip_map_map split_def comp_def zip_same_conv_map)
  have data: "np_broadcast2 (*) ?V (map (\<lambda>(i, j, v). u ! nat j - u ! nat i) ?E) = Some ?data"
    by (simp add: np_broadcast2_def zip_map_map split_def comp_def zip_same_conv_map)
  let ?M = "map (\<lambda>r. map (\<lambda>c. W ! r ! c * (u ! c - u ! r)) [0..<n]) [0..<n]"
  have zipE: "zip ?I (zip ?J ?data) = map (\<lambda>(i, j, v). (i, j, v * (u ! nat j - u ! nat i))) ?E"
    by (simp add: zip_map_map split_def comp_def zip_same_conv_map)
  have entry: "sum_list (map (\<lambda>(i, j, v). if i = int r \<and> j = int c then v else 0) (zip ?I (zip ?J ?data)))
      = W ! r ! c * (u ! c - u ! r)" if "r < n" "c < n" for r c
  proof -
    have "sum_list (map (\<lambda>(i, j, v). if i = int r \<and> j = int c then v else 0) (zip ?I (zip ?J ?data)))
       = sum_list (map (\<lambda>(i, j, v). if i = int r \<and> j = int c then v * (u ! nat j - u ! nat i) else 0) ?E)"
      unfolding zipE map_map by (intro arg_cong[where f = sum_list] map_cong refl) auto
    also have "\<dots> = W ! r ! c * (u ! nat (int c) - u ! nat (int r))"
      using find_entries_sum[of r W c "\<lambda>i j. u ! nat j - u ! nat i"] that s0 s1 by simp
    finally show ?thesis by simp
  qed
  have M: "coo_matrix ?data ?I ?J n = Some ?M"
    using rng entry by (simp add: coo_matrix_def)
  have sM: "shape1 ?M \<noteq> 0" using n by (simp add: shape1_def upt_rec[of 0 n])
  have mn: "min_axis1 ?M = Some (map np_min ?M)" and mx: "max_axis1 ?M = Some (map np_max ?M)"
    using sM by (simp_all add: min_axis1_def max_axis1_def)
  let ?r = "map2 (+) (map np_min ?M) (map np_max ?M)"
  have res: "graph_infinity_laplacian W u None None None = Some ?r"
    unfolding graph_infinity_laplacian_def sparse_find_entries Let_def s0
    by (simp only: simp_thms if_True prod.case Option.bind.simps uJ uI du data M mn mx)
  have row: "?M ! i = map (\<lambda>c. W ! i ! c * (u ! c - u ! i)) [0..<n]" using i by simp
  have ne: "map (\<lambda>c. W ! i ! c * (u ! c - u ! i)) [0..<n] \<noteq> []" using n by simp
  have "?r ! i = np_min (?M ! i) + np_max (?M ! i)" using i by simp
  also have "\<dots> = Min ((\<lambda>j. W ! i ! j * (u ! j - u ! i)) ` {0..<n})
                 + Max ((\<lambda>j. W ! i ! j * (u ! j - u ! i)) ` {0..<n})"
    unfolding row np_min_Min[OF ne] np_max_Max[OF ne] by simp
  finally have "?r ! i = Min ((\<lambda>j. W ! i ! j * (u ! j - u ! i)) ` {0..<n})
                 + Max ((\<lambda>j. W ! i ! j * (u ! j - u ! i)) ` {0..<n})" .
  moreover have "length ?r = n" by simp
  ultimately show ?thesis using res by blast
qed

theorem graph_infinity_laplacian_all_vertices_witness:
  "\<exists>r. graph_infinity_laplacian [[0, 1], [1, 0]] [0, 1] None None None = Some r \<and> length r = 2 \<and>
       r ! 0 = Min ((\<lambda>j. [[0, 1], [1, 0]] ! 0 ! j * ([0, 1] ! j - [0, 1::real] ! 0)) ` {0..<2})
             + Max ((\<lambda>j. [[0, 1], [1, 0]] ! 0 ! j * ([0, 1] ! j - [0, 1::real] ! 0)) ` {0..<2})"
  using graph_infinity_laplacian_all_vertices [of 2 "[[0, 1], [1, 0]]" "[0, 1]" 0]
  by (simp add: is_matrix_def)

section \<open>Projection onto the simplex\<close>

definition column :: "'a list list \<Rightarrow> nat \<Rightarrow> 'a list" where
  "column X j = map (\<lambda>row. row ! j) X"

definition np_transpose :: "'a list list \<Rightarrow> 'a list list" where
  "np_transpose X = map (column X) [0..<shape1 X]"

definition along_axis0 :: "('a list \<Rightarrow> 'b list) \<Rightarrow> 'a list list \<Rightarrow> 'b list list" where
  \<comment> \<open>an operation with \<^verbatim>\<open>axis=0\<close>: \<open>f\<close> is applied to every column\<close>
  "along_axis0 f X = map (\<lambda>i. map (\<lambda>j. f (column X j) ! i) [0..<shape1 X]) [0..<shape0 X]"

definition sort_descending :: "real list \<Rightarrow> real list" where
  \<comment> \<open>\<^verbatim>\<open>-np.sort(-x)\<close>\<close>
  "sort_descending x = map uminus (sort (map uminus x))"

definition tril_ones :: "nat \<Rightarrow> mat" where
  \<comment> \<open>\<^verbatim>\<open>np.tril(np.ones((k,k)))\<close>\<close>
  "tril_ones k = map (\<lambda>i. map (\<lambda>t. if t \<le> i then 1 else 0) [0..<k]) [0..<k]"

definition matmul :: "mat \<Rightarrow> mat \<Rightarrow> mat" where
  \<comment> \<open>\<^verbatim>\<open>A@B\<close> for matrices of matching shapes\<close>
  "matmul A B = map (\<lambda>row. map (\<lambda>j. dot row (column B j)) [0..<shape1 B]) A"

definition np_argmax :: "'a::linorder list \<Rightarrow> nat" where
  \<comment> \<open>the first position of the largest entry\<close>
  "np_argmax xs = length (takeWhile (\<lambda>x. x \<noteq> Max (set xs)) xs)"

text \<open>
  \<^verbatim>\<open>ProjectToSimplex(X)\<close> for a \<open>k \<times> n\<close> matrix.  \<open>Sum\<close> holds the running sums of the sorted
  columns, \<open>Max[i][j] = (Sum[i][j] - 1)/(i + 1)\<close> is what the two transpositions around the
  division by \<^verbatim>\<open>np.arange(k)+1\<close> compute, the rows of \<open>Xs\<close> are then shifted up by one with
  the last row replaced, and \<^verbatim>\<open>np.argmax\<close> of the comparison picks, in each column, the first
  row where it holds.  With no row, \<^verbatim>\<open>Xs[-1,:]\<close> raises.
\<close>

definition ProjectToSimplex :: "mat \<Rightarrow> mat option" where
  "ProjectToSimplex X =
     (let n = shape1 X;
          k = shape0 X;
          Xs = along_axis0 sort_descending X;
          A = tril_ones k;
          Sum = matmul A Xs;
          Max = map (\<lambda>i. map (\<lambda>s. (s - 1) / (real i + 1)) (Sum ! i)) [0..<k]
      in if k = 0 then None
         else
           let Xs = tl Xs @ [map (\<lambda>s. (s - 1) / real k) (Sum ! (k - 1))];
               I = map (\<lambda>j. np_argmax (map (\<lambda>i. Xs ! i ! j \<le> Max ! i ! j) [0..<k])) [0..<n]
           in Some (map (\<lambda>i. map (\<lambda>j. max (X ! i ! j - Max ! (I ! j) ! j) 0) [0..<n]) [0..<k]))"


subsection \<open>What the code computes in one column\<close>

definition tau :: "real list \<Rightarrow> nat \<Rightarrow> real" where
  "tau xs r = (sum_list (take (Suc r) xs) - 1) / (real r + 1)"

definition shifted :: "real list \<Rightarrow> nat \<Rightarrow> real" where
  "shifted xs i = (if i < length xs - 1 then xs ! Suc i else tau xs (length xs - 1))"

definition rho :: "real list \<Rightarrow> nat" where
  "rho xs = np_argmax (map (\<lambda>i. shifted xs i \<le> tau xs i) [0..<length xs])"

definition project_column :: "real list \<Rightarrow> real list" where
  "project_column x = (let xs = sort_descending x in map (\<lambda>v. max (v - tau xs (rho xs)) 0) x)"

lemma sort_descending_props:
  "length (sort_descending x) = length x"
  "mset (sort_descending x) = mset x"
  "i \<le> j \<Longrightarrow> j < length x \<Longrightarrow> sort_descending x ! j \<le> sort_descending x ! i"
proof -
  show "length (sort_descending x) = length x" by (simp add: sort_descending_def)
  have "mset (sort_descending x) = image_mset uminus (mset (sort (map uminus x)))"
    by (simp add: sort_descending_def)
  also have "\<dots> = mset x" by (simp add: multiset.map_comp comp_def)
  finally show "mset (sort_descending x) = mset x" .
  assume ij: "i \<le> j" "j < length x"
  have "sorted (sort (map uminus x))" by simp
  then have "sort (map uminus x) ! i \<le> sort (map uminus x) ! j"
    using ij by (simp add: sorted_iff_nth_mono)
  then show "sort_descending x ! j \<le> sort_descending x ! i"
    using ij by (simp add: sort_descending_def)
qed

lemma first_true:
  "True \<in> set bs \<Longrightarrow>
   length (takeWhile (\<lambda>x. x \<noteq> True) bs) < length bs \<and> bs ! length (takeWhile (\<lambda>x. x \<noteq> True) bs) \<and>
   (\<forall>i < length (takeWhile (\<lambda>x. x \<noteq> True) bs). \<not> bs ! i)"
  by (induction bs) (auto simp: nth_Cons split: nat.splits)

lemma np_argmax_first_true:
  assumes "True \<in> set bs"
  shows "np_argmax bs < length bs" "bs ! np_argmax bs" "\<forall>i < np_argmax bs. \<not> bs ! i"
proof -
  have "True \<le> Max (set bs)" using assms by (intro Max_ge) auto
  then have M: "Max (set bs) = True" by simp
  have r: "np_argmax bs = length (takeWhile (\<lambda>x. x \<noteq> True) bs)" by (simp add: np_argmax_def M)
  show "np_argmax bs < length bs" "bs ! np_argmax bs" "\<forall>i < np_argmax bs. \<not> bs ! i"
    unfolding r using first_true[OF assms] by blast+
qed

lemma rho_props:
  assumes "xs \<noteq> []"
  shows "rho xs < length xs" "shifted xs (rho xs) \<le> tau xs (rho xs)"
        "\<forall>i < rho xs. tau xs i < shifted xs i"
proof -
  let ?bs = "map (\<lambda>i. shifted xs i \<le> tau xs i) [0..<length xs]"
  have "shifted xs (length xs - 1) \<le> tau xs (length xs - 1)" by (simp add: shifted_def)
  moreover have "length xs - 1 < length xs" using assms by simp
  ultimately have "True \<in> set ?bs" by (auto simp: image_iff intro!: bexI[of _ "length xs - 1"])
  note A = np_argmax_first_true[OF this]
  show 1: "rho xs < length xs" using A(1) by (simp add: rho_def)
  show "shifted xs (rho xs) \<le> tau xs (rho xs)" using A(2) 1 by (simp add: rho_def)
  show "\<forall>i < rho xs. tau xs i < shifted xs i" using A(3) 1 by (auto simp: rho_def not_le)
qed

subsection \<open>The threshold of a sorted column\<close>

definition descending :: "real list \<Rightarrow> bool" where
  "descending xs = (\<forall>i j. i \<le> j \<and> j < length xs \<longrightarrow> xs ! j \<le> xs ! i)"

lemma tau_mult: "(real r + 1) * tau xs r = sum_list (take (Suc r) xs) - 1"
  by (simp add: tau_def add_nonneg_eq_0_iff)

lemma tau_0: "xs \<noteq> [] \<Longrightarrow> tau xs 0 = xs ! 0 - 1"
  by (cases xs) (simp_all add: tau_def)

lemma tau_step:
  assumes "Suc i < length xs"
  shows "(real i + 2) * tau xs (Suc i) = (real i + 1) * tau xs i + xs ! Suc i"
proof -
  have "sum_list (take (Suc (Suc i)) xs) = sum_list (take (Suc i) xs) + xs ! Suc i"
    using assms by (simp add: take_Suc_conv_app_nth[of "Suc i"])
  then show ?thesis using tau_mult[of "Suc i" xs] tau_mult[of i xs] by (simp add: algebra_simps)
qed

lemma tau_below_prefix:
  assumes "xs \<noteq> []" "r \<le> rho xs"
  shows "tau xs r < xs ! r"
  using assms(2)
proof (induction r)
  case 0
  then show ?case using tau_0[OF assms(1)] by simp
next
  case (Suc r)
  have r: "r < rho xs" using Suc.prems by simp
  have k: "rho xs < length xs" using rho_props(1)[OF assms(1)] .
  have "tau xs r < shifted xs r" using rho_props(3)[OF assms(1)] r by simp
  moreover have "r < length xs - 1" using r k by simp
  ultimately have lt: "tau xs r < xs ! Suc r" by (simp add: shifted_def)
  have "(real r + 2) * tau xs (Suc r) = (real r + 1) * tau xs r + xs ! Suc r"
    using tau_step[of r xs] r k by simp
  also have "\<dots> < (real r + 1) * xs ! Suc r + xs ! Suc r"
    using lt by (simp add: mult_strict_left_mono)
  also have "\<dots> = (real r + 2) * xs ! Suc r" by (simp add: algebra_simps)
  finally show ?case by (simp add: mult_less_cancel_left_pos)
qed

lemma clipped_sum_sorted:
  assumes "xs \<noteq> []" "descending xs"
  shows "sum_list (map (\<lambda>v. max (v - tau xs (rho xs)) 0) xs) = 1"
proof -
  let ?r = "rho xs" and ?t = "tau xs (rho xs)"
  have k: "?r < length xs" using rho_props(1)[OF assms(1)] .
  have top: "?t < xs ! ?r" using tau_below_prefix[OF assms(1) le_refl] .
  have hi: "max (v - ?t) 0 = v - ?t" if "v \<in> set (take (Suc ?r) xs)" for v
  proof -
    from that obtain i where i: "i < Suc ?r" "xs ! i = v" using k
      by (auto simp: in_set_conv_nth)
    then have "xs ! ?r \<le> xs ! i" using assms(2) k by (auto simp: descending_def)
    then show ?thesis using top i by simp
  qed
  have lo: "max (v - ?t) 0 = 0" if "v \<in> set (drop (Suc ?r) xs)" for v
  proof -
    from that obtain i where i: "i < length xs - Suc ?r" "xs ! (Suc ?r + i) = v"
      by (auto simp: in_set_conv_nth)
    then have lt: "?r < length xs - 1" by simp
    have "xs ! (Suc ?r + i) \<le> xs ! Suc ?r" using assms(2) i(1) by (auto simp: descending_def)
    moreover have "xs ! Suc ?r \<le> ?t" using rho_props(2)[OF assms(1)] lt by (simp add: shifted_def)
    ultimately show ?thesis using i by simp
  qed
  have "sum_list (map (\<lambda>v. max (v - ?t) 0) xs)
      = sum_list (map (\<lambda>v. max (v - ?t) 0) (take (Suc ?r) xs))
      + sum_list (map (\<lambda>v. max (v - ?t) 0) (drop (Suc ?r) xs))"
    by (metis append_take_drop_id map_append sum_list_append)
  also have "sum_list (map (\<lambda>v. max (v - ?t) 0) (drop (Suc ?r) xs)) = 0"
    using lo by (simp add: sum_list_0 cong: map_cong)
  also have "sum_list (map (\<lambda>v. max (v - ?t) 0) (take (Suc ?r) xs))
      = sum_list (map (\<lambda>v. v - ?t) (take (Suc ?r) xs))"
    using hi by (simp cong: map_cong)
  also have "\<dots> = sum_list (take (Suc ?r) xs) - (real ?r + 1) * ?t"
  proof -
    have "length (take (Suc ?r) xs) = Suc ?r" using k by simp
    then show ?thesis by (simp add: sum_list_subtractf sum_list_triv algebra_simps del: length_take)
  qed
  also have "\<dots> = 1" using tau_mult[of ?r xs] by simp
  finally show ?thesis by simp
qed

lemma sort_descending_descending: "descending (sort_descending x)"
  using sort_descending_props(1)[of x] sort_descending_props(3)[where x = x]
  by (auto simp: descending_def)

lemma sum_list_mset_cong:
  "mset xs = mset ys \<Longrightarrow> sum_list (map f xs) = sum_list (map (f::real \<Rightarrow> real) ys)"
  by (metis mset_map sum_mset_sum_list)

lemma project_column_simplex:
  assumes "x \<noteq> []"
  shows "sum_list (project_column x) = 1" "v \<in> set (project_column x) \<Longrightarrow> 0 \<le> v"
proof -
  let ?xs = "sort_descending x"
  have ne: "?xs \<noteq> []" using assms sort_descending_props(1)[of x] by auto
  have "sum_list (project_column x) = sum_list (map (\<lambda>v. max (v - tau ?xs (rho ?xs)) 0) ?xs)"
    unfolding project_column_def Let_def
    by (rule sum_list_mset_cong) (simp add: sort_descending_props(2))
  also have "\<dots> = 1" using clipped_sum_sorted[OF ne sort_descending_descending] .
  finally show "sum_list (project_column x) = 1" .
  show "v \<in> set (project_column x) \<Longrightarrow> 0 \<le> v"
    by (auto simp: project_column_def Let_def)
qed

lemma project_column_fixed:
  assumes "x \<noteq> []" "\<forall>v \<in> set x. 0 \<le> v" "sum_list x = 1"
  shows "project_column x = x"
proof -
  let ?xs = "sort_descending x"
  have len: "length ?xs = length x" by (rule sort_descending_props(1))
  have ne: "?xs \<noteq> []" using assms(1) len by auto
  have "set ?xs = set x" using sort_descending_props(2)[of x] by (metis set_mset_mset)
  then have nonneg: "\<forall>v \<in> set ?xs. 0 \<le> v" using assms(2) by simp
  have total: "sum_list ?xs = 1"
    using sum_list_mset_cong[OF sort_descending_props(2), of "\<lambda>v. v" x] assms(3) by simp
  have k: "rho ?xs < length ?xs" using rho_props(1)[OF ne] .
  have prefix: "sum_list (take (Suc r) ?xs) \<le> 1" for r
  proof -
    have "sum_list ?xs = sum_list (take (Suc r) ?xs) + sum_list (drop (Suc r) ?xs)"
      by (metis append_take_drop_id sum_list_append)
    moreover have "0 \<le> sum_list (drop (Suc r) ?xs)"
      using nonneg by (intro sum_list_nonneg) (auto dest: in_set_dropD)
    ultimately show ?thesis using total by simp
  qed
  have le0: "tau ?xs (rho ?xs) \<le> 0"
    using prefix[of "rho ?xs"] by (simp add: tau_def divide_le_0_iff)
  have ge0: "0 \<le> tau ?xs (rho ?xs)"
  proof (cases "rho ?xs < length ?xs - 1")
    case True
    then have "?xs ! Suc (rho ?xs) \<le> tau ?xs (rho ?xs)"
      using rho_props(2)[OF ne] by (simp add: shifted_def)
    moreover have "0 \<le> ?xs ! Suc (rho ?xs)" using nonneg True by simp
    ultimately show ?thesis by simp
  next
    case False
    then have "rho ?xs = length ?xs - 1" using k by simp
    moreover have "take (Suc (length ?xs - 1)) ?xs = ?xs" by simp
    ultimately show ?thesis using total by (simp add: tau_def)
  qed
  have "tau ?xs (rho ?xs) = 0" using le0 ge0 by simp
  then have "project_column x = map (\<lambda>v. max v 0) x" by (simp add: project_column_def Let_def)
  also have "\<dots> = x" using assms(2) by (intro map_idI) (auto simp: max_def)
  finally show ?thesis .
qed

lemma project_column_length: "length (project_column x) = length x"
  by (simp add: project_column_def Let_def)

subsection \<open>From the matrix to its columns\<close>

lemma column_matrix:
  "is_matrix k n X \<Longrightarrow> column X j = map (\<lambda>i. X ! i ! j) [0..<k]"
  by (auto simp: column_def is_matrix_def intro!: nth_equalityI)

lemma dot_tril:
  assumes "length xs = k" "i < k"
  shows "dot (map (\<lambda>t. if t \<le> i then 1 else 0) [0..<k]) xs = sum_list (take (Suc i) xs)"
proof -
  have "map2 (*) (map (\<lambda>t. if t \<le> i then 1 else 0) [0..<k]) xs
      = map (\<lambda>t. if t \<le> i then xs ! t else 0) [0..<k]"
    using assms(1) by (auto intro!: nth_equalityI)
  then have "dot (map (\<lambda>t. if t \<le> i then 1 else 0) [0..<k]) xs
      = (\<Sum>t\<in>{0..<k}. if t \<le> i then xs ! t else 0)"
    by (simp add: dot_def interv_sum_list_conv_sum_set_nat)
  also have "\<dots> = (\<Sum>t\<in>{0..<Suc i}. xs ! t)"
    using assms(2) by (intro sum.mono_neutral_cong_right) auto
  also have "\<dots> = sum_list (take (Suc i) xs)"
  proof -
    have len: "length (take (Suc i) xs) = Suc i" using assms by simp
    show ?thesis unfolding sum_list_sum_nth len
      by (intro sum.cong refl) simp
  qed
  finally show ?thesis .
qed

lemma ProjectToSimplex_columns:
  assumes X: "is_matrix k n X" and k: "0 < k"
  shows "ProjectToSimplex X = Some (map (\<lambda>i. map (\<lambda>j. project_column (column X j) ! i) [0..<n]) [0..<k])"
proof -
  have s0: "shape0 X = k" using X by (simp add: is_matrix_def shape0_def)
  have s1: "shape1 X = n" using shape1_matrix[OF X k] .
  define xs where "xs j = sort_descending (column X j)" for j
  have lenx: "length (xs j) = k" for j
    using X by (simp add: xs_def sort_descending_props(1) column_def is_matrix_def)
  define Xs where "Xs = along_axis0 sort_descending X"
  have Xs: "Xs = map (\<lambda>i. map (\<lambda>j. xs j ! i) [0..<n]) [0..<k]"
    by (simp add: Xs_def along_axis0_def s0 s1 xs_def)
  have Xs_shape: "shape0 Xs = k" "shape1 Xs = n"
    using k by (simp_all add: Xs shape0_def shape1_def upt_rec[of 0 k])
  have colXs: "column Xs j = xs j" if "j < n" for j
    using that lenx[of j] by (auto simp: Xs column_def intro!: nth_equalityI)
  define Sum where "Sum = matmul (tril_ones k) Xs"
  have Sum: "Sum ! i = map (\<lambda>j. sum_list (take (Suc i) (xs j))) [0..<n]" if "i < k" for i
    using that by (simp add: Sum_def matmul_def tril_ones_def Xs_shape colXs dot_tril lenx)
  have lenSum: "length Sum = k" by (simp add: Sum_def matmul_def tril_ones_def)
  define Mx where "Mx = map (\<lambda>i. map (\<lambda>s. (s - 1) / (real i + 1)) (Sum ! i)) [0..<k]"
  have Mx: "Mx ! i ! j = tau (xs j) i" if "i < k" "j < n" for i j
    using that by (simp add: Mx_def Sum tau_def)
  define Xs' where "Xs' = tl Xs @ [map (\<lambda>s. (s - 1) / real k) (Sum ! (k - 1))]"
  have Xs': "Xs' ! i ! j = shifted (xs j) i" if "i < k" "j < n" for i j
  proof (cases "i < k - 1")
    case True
    then have "Xs' ! i = Xs ! Suc i" by (simp add: Xs'_def nth_append nth_tl Xs)
    then show ?thesis using True that by (simp add: Xs shifted_def lenx)
  next
    case False
    then have i: "i = k - 1" using that by simp
    have "Xs' ! i = map (\<lambda>s. (s - 1) / real k) (Sum ! (k - 1))"
      by (simp add: Xs'_def nth_append i Xs)
    then show ?thesis using that k i Sum[of "k - 1"]
      by (simp add: shifted_def lenx tau_def of_nat_diff)
  qed
  define I where "I = map (\<lambda>j. np_argmax (map (\<lambda>i. Xs' ! i ! j \<le> Mx ! i ! j) [0..<k])) [0..<n]"
  have I: "I ! j = rho (xs j)" if "j < n" for j
  proof -
    have "I ! j = np_argmax (map (\<lambda>i. Xs' ! i ! j \<le> Mx ! i ! j) [0..<k])"
      using that by (simp add: I_def)
    also have "\<dots> = np_argmax (map (\<lambda>i. shifted (xs j) i \<le> tau (xs j) i) [0..<k])"
      by (rule arg_cong[where f = np_argmax], intro map_cong refl) (simp add: Xs' Mx that)
    also have "\<dots> = rho (xs j)" by (simp add: rho_def lenx)
    finally show ?thesis .
  qed
  have rho_lt: "rho (xs j) < k" for j
    using rho_props(1)[of "xs j"] lenx[of j] k by auto
  have res: "map (\<lambda>i. map (\<lambda>j. max (X ! i ! j - Mx ! (I ! j) ! j) 0) [0..<n]) [0..<k]
     = map (\<lambda>i. map (\<lambda>j. project_column (column X j) ! i) [0..<n]) [0..<k]"
  proof (intro map_cong refl)
    fix i j assume "i \<in> set [0..<k]" "j \<in> set [0..<n]"
    then have ij: "i < k" "j < n" by simp_all
    have "Mx ! (I ! j) ! j = tau (xs j) (rho (xs j))" using ij rho_lt by (simp add: I Mx)
    moreover have "project_column (column X j) ! i = max (X ! i ! j - tau (xs j) (rho (xs j))) 0"
      using ij by (simp add: project_column_def Let_def xs_def column_matrix[OF X])
    ultimately show "max (X ! i ! j - Mx ! (I ! j) ! j) 0 = project_column (column X j) ! i" by simp
  qed
  show ?thesis
    unfolding ProjectToSimplex_def Let_def s0 s1
    using k res by (simp add: Xs_def Sum_def Mx_def Xs'_def I_def)
qed

text \<open>
  Claim C6.  For every real matrix with \<open>k \<ge> 1\<close> rows and \<open>n\<close> columns, \<^verbatim>\<open>ProjectToSimplex\<close>
  returns a matrix of the same shape whose columns are entrywise nonnegative and sum to 1
  (in exact arithmetic), and projecting the result again returns it unchanged.
\<close>

theorem ProjectToSimplex_simplex_idempotent:
  assumes X: "is_matrix k n X" and k: "0 < k"
  shows "\<exists>Y. ProjectToSimplex X = Some Y \<and> is_matrix k n Y \<and>
           (\<forall>j < n. (\<forall>i < k. 0 \<le> Y ! i ! j) \<and> (\<Sum>i < k. Y ! i ! j) = 1) \<and>
           ProjectToSimplex Y = Some Y"
proof -
  define pc where "pc j = project_column (column X j)" for j
  define Y where "Y = map (\<lambda>i. map (\<lambda>j. pc j ! i) [0..<n]) [0..<k]"
  have PX: "ProjectToSimplex X = Some Y"
    using ProjectToSimplex_columns[OF X k] by (simp add: Y_def pc_def)
  have Y: "is_matrix k n Y" by (simp add: Y_def is_matrix_def list_all_iff)
  have lencol: "length (column X j) = k" for j using X by (simp add: column_def is_matrix_def)
  have lenpc: "length (pc j) = k" for j by (simp add: pc_def project_column_length lencol)
  have ne: "column X j \<noteq> []" for j using lencol[of j] k by auto
  have colY: "column Y j = pc j" if "j < n" for j
  proof -
    have "column Y j = map (\<lambda>i. Y ! i ! j) [0..<k]" by (rule column_matrix[OF Y])
    also have "\<dots> = map (\<lambda>i. pc j ! i) [0..<k]"
      using that by (intro map_cong refl) (simp add: Y_def)
    also have "\<dots> = pc j" using lenpc[of j] by (metis map_nth)
    finally show ?thesis .
  qed
  have entry: "Y ! i ! j = pc j ! i" if "i < k" "j < n" for i j using that by (simp add: Y_def)
  have simplex: "(\<forall>i < k. 0 \<le> Y ! i ! j) \<and> (\<Sum>i < k. Y ! i ! j) = 1" if j: "j < n" for j
  proof
    show "\<forall>i < k. 0 \<le> Y ! i ! j"
    proof (intro allI impI)
      fix i assume i: "i < k"
      then have "pc j ! i \<in> set (pc j)" using lenpc[of j] by simp
      then show "0 \<le> Y ! i ! j"
        using project_column_simplex(2)[OF ne[of j]] entry[OF i j] by (simp add: pc_def)
    qed
    have "(\<Sum>i < k. Y ! i ! j) = (\<Sum>i < k. pc j ! i)" using entry j by simp
    also have "\<dots> = sum_list (pc j)"
      using lenpc[of j] by (simp add: sum_list_sum_nth atLeast0LessThan)
    also have "\<dots> = 1" using project_column_simplex(1)[OF ne[of j]] by (simp add: pc_def)
    finally show "(\<Sum>i < k. Y ! i ! j) = 1" .
  qed
  have fixed: "project_column (column Y j) = pc j" if j: "j < n" for j
  proof -
    have "pc j \<noteq> []" using lenpc[of j] k by auto
    moreover have "\<forall>v \<in> set (pc j). 0 \<le> v"
      using project_column_simplex(2)[OF ne[of j]] by (simp add: pc_def)
    moreover have "sum_list (pc j) = 1"
      using project_column_simplex(1)[OF ne[of j]] by (simp add: pc_def)
    ultimately show ?thesis using project_column_fixed[of "pc j"] colY[OF j] by simp
  qed
  have "ProjectToSimplex Y = Some (map (\<lambda>i. map (\<lambda>j. project_column (column Y j) ! i) [0..<n]) [0..<k])"
    using ProjectToSimplex_columns[OF Y k] .
  also have "map (\<lambda>i. map (\<lambda>j. project_column (column Y j) ! i) [0..<n]) [0..<k] = Y"
    unfolding Y_def by (intro map_cong refl) (simp add: fixed Y_def[symmetric])
  finally have "ProjectToSimplex Y = Some Y" .
  with PX Y simplex show ?thesis by blast
qed

theorem ProjectToSimplex_simplex_idempotent_witness:
  "\<exists>Y. ProjectToSimplex [[1, 1 / 5, 5], [2, 3 / 10, 5], [0, 1 / 2, -7]] = Some Y \<and> is_matrix 3 3 Y \<and>
       (\<forall>j < 3. (\<forall>i < 3. 0 \<le> Y ! i ! j) \<and> (\<Sum>i < 3. Y ! i ! j) = 1) \<and>
       ProjectToSimplex Y = Some Y"
  using ProjectToSimplex_simplex_idempotent [of 3 3 "[[1, 1 / 5, 5], [2, 3 / 10, 5], [0, 1 / 2, -7]]"]
  by (simp add: is_matrix_def)

section \<open>Poisson learning\<close>

text \<open>
  \<^verbatim>\<open>poisson(W,I,g,true_labels=None,use_cuda=False)\<close>.  The labels \<open>g\<close> are integers: the code
  uses them as values and, in \<^verbatim>\<open>num_labels[g[j]]\<close>, as indices.  The accuracy printed when
  \<^verbatim>\<open>true_labels\<close> is given does not enter the result and is left out.
\<close>

definition degrees :: "mat \<Rightarrow> vec" where
  \<comment> \<open>\<^verbatim>\<open>np.sum(W,axis=1)\<close>: the row sums\<close>
  "degrees W = map sum_list W"

definition identity :: "nat \<Rightarrow> mat" where
  "identity n = map (\<lambda>i. map (\<lambda>j. if i = j then 1 else 0) [0..<n]) [0..<n]"

definition mat_add :: "mat \<Rightarrow> mat \<Rightarrow> mat" where
  "mat_add A B = map2 (map2 (+)) A B"

definition mat_sub :: "mat \<Rightarrow> mat \<Rightarrow> mat" where
  "mat_sub A B = map2 (map2 (-)) A B"

definition mat_scale :: "real \<Rightarrow> mat \<Rightarrow> mat" where
  "mat_scale a A = map (map ((*) a)) A"

definition mv :: "mat \<Rightarrow> vec \<Rightarrow> vec" where
  \<comment> \<open>matrix times vector for operands of matching shapes\<close>
  "mv A x = map (\<lambda>row. dot row x) A"

definition diag_multiply :: "mat \<Rightarrow> real \<Rightarrow> mat" where
  "diag_multiply W b = (let n = shape0 W; D = spdiags (diagonal W) n in mat_sub W (mat_scale (1 - b) D))"

definition degree_matrix :: "mat \<Rightarrow> (real \<Rightarrow> real) \<Rightarrow> mat" where
  \<comment> \<open>\<^verbatim>\<open>degree_matrix(W,p)\<close>; the power \<^verbatim>\<open>d**p\<close> is the function \<open>pw\<close>\<close>
  "degree_matrix W pw = (let n = shape0 W; d = degrees W in spdiags (map pw d) n)"

definition graph_laplacian_none :: "mat \<Rightarrow> mat" where
  \<comment> \<open>\<^verbatim>\<open>graph_laplacian(W,norm='none')\<close>\<close>
  "graph_laplacian_none W = (let D = degree_matrix W (\<lambda>d. d) in mat_sub D W)"

definition count_labels :: "real list \<Rightarrow> real list \<Rightarrow> vec" where
  \<comment> \<open>\<^verbatim>\<open>num_labels[i] = np.sum(g==unique_labels[i])\<close>\<close>
  "count_labels unique_labels g = map (\<lambda>l. real (length (filter (\<lambda>x. x = l) g))) unique_labels"

text \<open>Lines 1418 to 1437: the weighted label indicator, before it is centred.\<close>

definition poisson_weights :: "nat \<Rightarrow> int list \<Rightarrow> int list \<Rightarrow> (mat \<times> vec) option" where
  "poisson_weights n I g = do {
     let gr = map real_of_int g;
     let unique_labels = np_unique gr;
     let k = length unique_labels;
     let num_labels = count_labels unique_labels gr;
     let multiplier = map (\<lambda>c. 1 / c) num_labels;
     g0 \<leftarrow> py_get gr 0;
     J \<leftarrow> np_put_const (replicate n 0) I 1;
     K \<leftarrow> np_put (replicate n g0) I gr;
     (Kg, _, _) \<leftarrow> LabelsToVec K;
     let Kg = map (\<lambda>row. map2 (*) row J) Kg;
     let KgT = np_transpose Kg;
     if list_all (\<lambda>row. np_broadcast2 (*) multiplier row \<noteq> None) KgT
     then Some (np_transpose (map (\<lambda>row. the (np_broadcast2 (*) multiplier row)) KgT), num_labels)
     else None
   }"

fun center_rows :: "mat \<Rightarrow> int list \<Rightarrow> nat \<Rightarrow> int list \<Rightarrow> vec \<Rightarrow> vec \<Rightarrow> mat option" where
  "center_rows b [] j g c num_labels = Some b"
| "center_rows b (i # is) j g c num_labels =
     (case py_get b i of None \<Rightarrow> None | Some row \<Rightarrow>
      case py_get g (int j) of None \<Rightarrow> None | Some gj \<Rightarrow>
      case py_get num_labels gj of None \<Rightarrow> None | Some m \<Rightarrow>
      case py_set b i (map2 (-) row (map (\<lambda>x. x / m) c)) of None \<Rightarrow> None | Some b' \<Rightarrow>
        center_rows b' is (j + 1) g c num_labels)"

text \<open>Lines 1439 to 1447: the source term.\<close>

definition poisson_source :: "nat \<Rightarrow> int list \<Rightarrow> int list \<Rightarrow> mat option" where
  "poisson_source n I g = do {
     (Kg, num_labels) \<leftarrow> poisson_weights n I g;
     let k = length (np_unique (map real_of_int g));
     let c = map (\<lambda>row. sum_list row / real k) Kg;
     let b = np_transpose Kg;
     center_rows b I 0 g c num_labels
   }"

subsection \<open>Writes at distinct positions\<close>

definition written :: "int list \<Rightarrow> 'a list \<Rightarrow> nat \<Rightarrow> 'a option" where
  \<comment> \<open>the value that \<^verbatim>\<open>u[I] = xs\<close> writes at position \<open>i\<close>, if any\<close>
  "written I xs i = map_of (zip (map nat I) xs) i"

lemma written_nth:
  assumes "distinct I" "\<forall>i \<in> set I. 0 \<le> i" "length xs = length I" "j < length I"
  shows "written I xs (nat (I ! j)) = Some (xs ! j)"
proof -
  have inj: "inj_on nat (set I)" using assms(2) by (auto simp: inj_on_def eq_nat_nat_iff)
  have d: "distinct (map nat I)" using assms(1) inj by (simp add: distinct_map)
  have "map_of (zip (map nat I) xs) (map nat I ! j) = Some (xs ! j)"
    using d assms(3,4) by (intro map_of_zip_nth) auto
  then show ?thesis using assms(4) by (simp add: written_def)
qed

lemma written_None:
  assumes "length xs = length I"
  shows "written I xs i = None \<longleftrightarrow> i \<notin> nat ` set I"
  using assms by (simp add: written_def map_of_zip_is_None[symmetric])

lemma written_Some_ex:
  assumes "written I xs i = Some x"
  shows "\<exists>j < length I. j < length xs \<and> nat (I ! j) = i \<and> xs ! j = x"
proof -
  from assms have "(i, x) \<in> set (zip (map nat I) xs)" by (auto simp: written_def dest: map_of_SomeD)
  then show ?thesis by (auto simp: set_zip)
qed

lemma put_each_written:
  assumes "put_each u I xs = Some u'" "distinct I" "\<forall>i \<in> set I. 0 \<le> i \<and> i < int (length u)"
    "i < length u"
  shows "u' ! i = (case written I xs i of None \<Rightarrow> u ! i | Some x \<Rightarrow> x)"
proof (cases "written I xs i")
  case None
  have len: "length xs = length I" using put_each_lengths[OF assms(1)] .
  have "i \<notin> nat ` set I" using None written_None[OF len] by simp
  then have "\<forall>i' \<in> set I. py_index (length u) i' \<noteq> Some i"
    using assms(3) by (auto simp: py_index_in)
  from put_each_other[OF assms(1) this] show ?thesis using None by simp
next
  case (Some x)
  have len: "length xs = length I" using put_each_lengths[OF assms(1)] .
  from written_Some_ex[OF Some] obtain j where j: "j < length I" "nat (I ! j) = i" "xs ! j = x"
    by blast
  from put_each_lookup[OF assms(1,2,3) j(1)] show ?thesis using Some j by simp
qed

lemma sum_written:
  assumes "distinct I" "\<forall>i \<in> set I. 0 \<le> i \<and> i < int n" "length xs = length I"
  shows "(\<Sum>i < n. case written I xs i of None \<Rightarrow> 0 | Some x \<Rightarrow> h x) = sum_list (map h xs :: real list)"
  using assms(3,1,2)
proof (induction xs I rule: list_induct2)
  case Nil
  then show ?case by (simp add: written_def)
next
  case (Cons x xs i I)
  let ?r = "\<lambda>a. case written I xs a of None \<Rightarrow> 0 | Some y \<Rightarrow> h y"
  have a: "nat i < n" using Cons.prems(2) by auto
  have "nat i \<notin> nat ` set I" using Cons.prems by (auto simp: eq_nat_nat_iff)
  then have none: "written I xs (nat i) = None" using written_None[of xs I] Cons.hyps by simp
  have "(\<Sum>a < n. case written (i # I) (x # xs) a of None \<Rightarrow> 0 | Some y \<Rightarrow> h y)
      = (\<Sum>a < n. (if a = nat i then h x else 0) + ?r a)"
    using none by (intro sum.cong refl) (auto simp: written_def)
  also have "\<dots> = h x + (\<Sum>a < n. ?r a)"
    using a by (simp add: sum.distrib)
  also have "(\<Sum>a < n. ?r a) = sum_list (map h xs)"
    using Cons.IH Cons.prems by simp
  finally show ?case by simp
qed

subsection \<open>Counting labels\<close>

lemma sum_list_indicator:
  "sum_list (map (\<lambda>x. if x = c then a else 0) g) = real (length (filter (\<lambda>x. x = c) g)) * (a::real)"
  by (induction g) (auto simp: algebra_simps)

lemma sum_list_by_count:
  "sum_list (map f xs) = (\<Sum>x \<in> set xs. real (length (filter (\<lambda>y. y = x) xs)) * (f x :: real))"
proof (induction xs)
  case Nil
  then show ?case by simp
next
  case (Cons a xs)
  have fin: "finite (set xs)" by simp
  show ?case
  proof (cases "a \<in> set xs")
    case True
    then have ins: "insert a (set xs) = set xs" by auto
    have "(\<Sum>x \<in> set xs. real (length (filter (\<lambda>y. y = x) (a # xs))) * f x)
        = (\<Sum>x \<in> set xs. real (length (filter (\<lambda>y. y = x) xs)) * f x + (if x = a then f a else 0))"
      by (intro sum.cong refl) (auto simp: algebra_simps)
    also have "\<dots> = (\<Sum>x \<in> set xs. real (length (filter (\<lambda>y. y = x) xs)) * f x) + f a"
      using True by (simp add: sum.distrib)
    finally show ?thesis using Cons.IH by (simp add: ins)
  next
    case False
    have "(\<Sum>x \<in> set xs. real (length (filter (\<lambda>y. y = x) (a # xs))) * f x)
        = (\<Sum>x \<in> set xs. real (length (filter (\<lambda>y. y = x) xs)) * f x)"
      using False by (intro sum.cong refl) auto
    moreover have "filter (\<lambda>y. y = a) xs = []" using False by (auto simp: filter_empty_conv)
    ultimately show ?thesis using Cons.IH False by simp
  qed
qed

lemma sum_list_inverse_count:
  "sum_list (map (\<lambda>x. 1 / real (length (filter (\<lambda>y. y = x) xs))) xs) = real (card (set xs))"
proof -
  have "sum_list (map (\<lambda>x. 1 / real (length (filter (\<lambda>y. y = x) xs))) xs)
      = (\<Sum>x \<in> set xs. real (length (filter (\<lambda>y. y = x) xs)) * (1 / real (length (filter (\<lambda>y. y = x) xs))))"
    by (rule sum_list_by_count)
  also have "\<dots> = (\<Sum>x \<in> set xs. 1)"
  proof (intro sum.cong refl)
    fix x assume "x \<in> set xs"
    then have "filter (\<lambda>y. y = x) xs \<noteq> []" by (auto simp: filter_empty_conv)
    then show "real (length (filter (\<lambda>y. y = x) xs)) * (1 / real (length (filter (\<lambda>y. y = x) xs))) = 1"
      by simp
  qed
  finally show ?thesis by simp
qed

subsection \<open>The weights for labels \<open>0..k-1\<close>\<close>

definition labelled :: "nat \<Rightarrow> nat \<Rightarrow> int list \<Rightarrow> int list \<Rightarrow> bool" where
  \<comment> \<open>a label set: distinct vertices of the graph, one label each, the labels being \<open>0..k-1\<close>\<close>
  "labelled n k I g =
     (distinct I \<and> list_all (\<lambda>i. 0 \<le> i \<and> i < int n) I \<and> length g = length I \<and>
      set g = {0..<int k} \<and> 0 < k)"

definition class_count :: "int list \<Rightarrow> nat \<Rightarrow> nat" where
  \<comment> \<open>the number \<open>n\<^sub>c\<close> of labelled examples of class \<open>c\<close>\<close>
  "class_count g c = length (filter (\<lambda>x. x = int c) g)"

definition weight :: "int list \<Rightarrow> int list \<Rightarrow> nat \<Rightarrow> nat \<Rightarrow> real" where
  \<comment> \<open>\<open>1/n\<^sub>c\<close> at the labelled vertices of class \<open>c\<close>, zero elsewhere\<close>
  "weight I g c i =
     (case written I g i of None \<Rightarrow> 0
      | Some x \<Rightarrow> if x = int c then 1 / real (class_count g c) else 0)"

lemma written_map: "written I (map f xs) i = map_option f (written I xs i)"
proof -
  have "zip (map nat I) (map f xs) = map (\<lambda>(a, b). (a, f b)) (zip (map nat I) xs)"
    by (simp add: zip_map2 split_def)
  then show ?thesis by (simp add: written_def map_of_map)
qed

lemma np_unique_range:
  assumes "set xs = real ` {0..<k}"
  shows "np_unique xs = map real [0..<k]"
proof (rule sorted_distinct_set_unique)
  show "sorted (np_unique xs)" "distinct (np_unique xs)" by (rule np_unique_props)+
  show "sorted (map real [0..<k])" by (simp add: sorted_map sorted_wrt_iff_nth_less)
  show "distinct (map real [0..<k])" by (simp add: distinct_map inj_on_def)
  show "set (np_unique xs) = set (map real [0..<k])" using assms by (simp add: np_unique_props)
qed

lemma set_real_labels:
  assumes "set g = {0..<int k}"
  shows "set (map real_of_int g) = real ` {0..<k}"
proof -
  have "real_of_int ` {0..<int k} = real ` {0..<k}"
  proof (intro set_eqI iffI)
    fix x assume "x \<in> real_of_int ` {0..<int k}"
    then obtain z where z: "0 \<le> z" "z < int k" "x = real_of_int z" by auto
    then have "x = real (nat z)" "nat z < k" by auto
    then show "x \<in> real ` {0..<k}" by auto
  next
    fix x assume "x \<in> real ` {0..<k}"
    then obtain c where "c < k" "x = real c" by auto
    then have "x = real_of_int (int c)" "0 \<le> int c" "int c < int k" by auto
    then show "x \<in> real_of_int ` {0..<int k}" by (metis atLeastLessThan_iff imageI)
  qed
  then show ?thesis using assms by simp
qed

lemma count_labels_range:
  "count_labels (map real [0..<k]) (map real_of_int g) = map (\<lambda>c. real (class_count g c)) [0..<k]"
proof -
  have "length (filter (\<lambda>x. x = real c) (map real_of_int g)) = length (filter (\<lambda>x. x = int c) g)" for c
  proof -
    have "(real_of_int x = real c) = (x = int c)" for x by linarith
    then show ?thesis by (simp add: filter_map comp_def)
  qed
  then show ?thesis by (simp add: count_labels_def class_count_def comp_def)
qed

lemma relabel_all_length: "length (relabel_all labels L) = length L"
proof -
  have "length (fold (\<lambda>i L'. relabel L' (labels ! i) i) is L) = length L" for "is"
    by (induction "is" arbitrary: L) (simp_all add: relabel_def)
  then show ?thesis by (simp add: relabel_all_def)
qed

lemma LabelsToVec_range:
  assumes "set K = real ` {0..<k}"
  shows "LabelsToVec K = Some (map (\<lambda>r. map (\<lambda>x. if x = real r then 1 else 0) K) [0..<k], map real [0..<k], K)"
proof -
  have u: "np_unique K = map real [0..<k]" using np_unique_range[OF assms] .
  have nat: "\<forall>x \<in> set K. x \<in> \<nat>" using assms by auto
  have same: "relabel_all (map real [0..<k]) K = K"
  proof (rule nth_equalityI)
    show "length (relabel_all (map real [0..<k]) K) = length K" by (rule relabel_all_length)
    fix j assume "j < length (relabel_all (map real [0..<k]) K)"
    then have j: "j < length K" by (simp add: relabel_all_length)
    from relabel_all_nat[OF nat j] show "relabel_all (map real [0..<k]) K ! j = K ! j"
      unfolding u by auto
  qed
  have idx: "py_index k (astype_int x) = Some (nat \<lfloor>x\<rfloor>) \<and> real (nat \<lfloor>x\<rfloor>) = x" if "x \<in> set K" for x
  proof -
    from that assms obtain c where c: "c < k" "x = real c" by auto
    then show ?thesis by (simp add: astype_int_def py_index_def)
  qed
  have ok: "list_all (\<lambda>c. py_index k c \<noteq> None) (map astype_int K)"
    using idx by (auto simp: list_all_iff)
  have "map (\<lambda>r. map (\<lambda>c. if py_index k c = Some r then 1 else 0) (map astype_int K)) [0..<k]
      = map (\<lambda>r. map (\<lambda>x. if x = real r then (1::real) else 0) K) [0..<k]"
    unfolding map_map comp_def
  proof (intro map_cong refl)
    fix r x assume "x \<in> set K"
    from idx[OF this] show "(if py_index k (astype_int x) = Some r then (1::real) else 0) = (if x = real r then 1 else 0)"
      by auto
  qed
  then show ?thesis using ok by (simp add: LabelsToVec_def Let_def u same one_hot_def)
qed

lemma labelled_range: "labelled n k I g \<Longrightarrow> \<forall>i \<in> set I. 0 \<le> i \<and> i < int n"
  by (simp add: labelled_def list_all_iff)

lemma poisson_weights_eq:
  assumes lab: "labelled n k I g"
  shows "poisson_weights n I g =
     Some (map (\<lambda>c. map (\<lambda>i. weight I g c i) [0..<n]) [0..<k], map (\<lambda>c. real (class_count g c)) [0..<k])"
proof -
  let ?gr = "map real_of_int g" and ?m = "length I"
  have d: "distinct I" and rng: "\<forall>i \<in> set I. 0 \<le> i \<and> i < int n" and len: "length g = length I"
    and sg: "set g = {0..<int k}" and k: "0 < k"
    using lab by (simp_all add: labelled_def list_all_iff)
  have gne: "g \<noteq> []" using sg k by auto
  then have Ine: "I \<noteq> []" using len by auto
  then have n: "0 < n" using rng by (cases I) auto
  have sgr: "set ?gr = real ` {0..<k}" using set_real_labels[OF sg] .
  have u: "np_unique ?gr = map real [0..<k]" using np_unique_range[OF sgr] .
  have nl: "count_labels (map real [0..<k]) ?gr = map (\<lambda>c. real (class_count g c)) [0..<k]"
    by (rule count_labels_range)
  have g0: "py_get ?gr 0 = Some (?gr ! 0)" using gne by (simp add: py_get_def py_index_def)
  \<comment> \<open>the arrays J and K\<close>
  obtain J where J: "put_each (replicate n (0::real)) I (replicate ?m 1) = Some J"
    using put_each_some[of "replicate ?m (1::real)" I "replicate n 0"] rng by auto
  have lJ: "length J = n" using put_each_length[OF J] by simp
  have Ji: "J ! i = (case written I g i of None \<Rightarrow> 0 | Some x \<Rightarrow> 1)" if "i < n" for i
  proof -
    have "replicate ?m (1::real) = map (\<lambda>_. 1) g" using len by (simp add: map_replicate_const)
    then have "written I (replicate ?m (1::real)) i = map_option (\<lambda>_. 1) (written I g i)"
      by (simp add: written_map)
    then show ?thesis using put_each_written[OF J d, of i] rng that
      by (simp split: option.splits)
  qed
  obtain K where K: "put_each (replicate n (?gr ! 0)) I ?gr = Some K"
    using put_each_some[of ?gr I "replicate n (?gr ! 0)"] rng len by auto
  have lK: "length K = n" using put_each_length[OF K] by simp
  have Ki: "K ! i = (case written I g i of None \<Rightarrow> ?gr ! 0 | Some x \<Rightarrow> real_of_int x)" if "i < n" for i
    using put_each_written[OF K d, of i] rng that by (simp add: written_map split: option.splits)
  have sK: "set K = real ` {0..<k}"
  proof (intro set_eqI iffI)
    fix x assume "x \<in> set K"
    then obtain i where i: "i < n" "K ! i = x" using lK by (auto simp: in_set_conv_nth)
    have "x \<in> set ?gr"
    proof (cases "written I g i")
      case None
      then show ?thesis using Ki[OF i(1)] i(2) gne by (auto simp: in_set_conv_nth intro!: exI[of _ 0])
    next
      case (Some y)
      from written_Some_ex[OF Some] have "y \<in> set g" by auto
      then show ?thesis using Ki[OF i(1)] i(2) Some by auto
    qed
    then show "x \<in> real ` {0..<k}" using sgr by simp
  next
    fix x assume "x \<in> real ` {0..<k}"
    then have "x \<in> set ?gr" using sgr by simp
    then obtain j where j: "j < length g" "real_of_int (g ! j) = x" by (auto simp: in_set_conv_nth)
    have jI: "j < length I" using j len by simp
    have w: "written I g (nat (I ! j)) = Some (g ! j)"
      using written_nth[OF d _ len jI] rng by auto
    have "nat (I ! j) < n" using rng jI by (metis nat_less_iff nth_mem of_nat_0_le_iff nat_0_le)
    then have "K ! nat (I ! j) = x" "nat (I ! j) < length K" using Ki w j lK by auto
    then show "x \<in> set K" by (metis nth_mem)
  qed
  note LV = LabelsToVec_range[OF sK]
  \<comment> \<open>the weighted indicator\<close>
  let ?X = "map (\<lambda>r. map (\<lambda>x. if x = real r then 1 else 0) K) [0..<k]"
  let ?Kg1 = "map (\<lambda>row. map2 (*) row J) ?X"
  let ?mult = "map (\<lambda>c. 1 / c) (map (\<lambda>c. real (class_count g c)) [0..<k])"
  have Kg1: "?Kg1 = map (\<lambda>r. map (\<lambda>i. (if K ! i = real r then 1 else 0) * J ! i) [0..<n]) [0..<k]"
    using lK lJ by (auto simp: map_nth intro!: nth_equalityI)
  have sh1: "shape1 ?Kg1 = n" unfolding Kg1 using k by (simp add: shape1_def upt_rec[of 0 k])
  have KgT: "np_transpose ?Kg1 = map (\<lambda>i. map (\<lambda>r. (if K ! i = real r then 1 else 0) * J ! i) [0..<k]) [0..<n]"
    unfolding np_transpose_def sh1 unfolding Kg1 by (simp add: column_def comp_def)
  have bc: "np_broadcast2 (*) ?mult row = Some (map2 (*) ?mult row)" if "row \<in> set (np_transpose ?Kg1)" for row
    using that unfolding KgT by (auto simp: np_broadcast2_def)
  have all: "list_all (\<lambda>row. np_broadcast2 (*) ?mult row \<noteq> None) (np_transpose ?Kg1)"
    using bc by (simp add: list_all_iff)
  let ?T = "map (\<lambda>row. the (np_broadcast2 (*) ?mult row)) (np_transpose ?Kg1)"
  have T: "?T = map (\<lambda>i. map (\<lambda>r. 1 / real (class_count g r) * ((if K ! i = real r then 1 else 0) * J ! i)) [0..<k]) [0..<n]"
  proof -
    have "?T = map (\<lambda>row. map2 (*) ?mult row) (np_transpose ?Kg1)"
      using bc by (intro map_cong refl) simp
    also have "\<dots> = map (\<lambda>i. map (\<lambda>r. 1 / real (class_count g r) * ((if K ! i = real r then 1 else 0) * J ! i)) [0..<k]) [0..<n]"
      unfolding KgT by (auto intro!: nth_equalityI)
    finally show ?thesis .
  qed
  have shT: "shape1 ?T = k" unfolding T using n by (simp add: shape1_def upt_rec[of 0 n])
  have res: "np_transpose ?T = map (\<lambda>c. map (\<lambda>i. weight I g c i) [0..<n]) [0..<k]"
  proof -
    have "np_transpose ?T = map (column ?T) [0..<k]"
      by (simp only: np_transpose_def[of ?T] shT)
    also have "\<dots> = map (\<lambda>r. map (\<lambda>i. 1 / real (class_count g r) * ((if K ! i = real r then 1 else 0) * J ! i)) [0..<n]) [0..<k]"
      unfolding T by (simp add: column_def comp_def)
    also have "\<dots> = map (\<lambda>c. map (\<lambda>i. weight I g c i) [0..<n]) [0..<k]"
    proof (intro map_cong refl)
      fix c i assume "i \<in> set [0..<n]"
      then have i: "i < n" by simp
      show "1 / real (class_count g c) * ((if K ! i = real c then 1 else 0) * J ! i) = weight I g c i"
      proof (cases "written I g i")
        case None
        then show ?thesis using Ji[OF i] by (simp add: weight_def)
      next
        case (Some x)
        have "(real_of_int x = real c) = (x = int c)" by linarith
        then show ?thesis using Some Ji[OF i] Ki[OF i] by (simp add: weight_def)
      qed
    qed
    finally show ?thesis .
  qed
  show ?thesis
    unfolding poisson_weights_def Let_def u nl
    using g0 J K LV all res len
    by (simp add: np_put_const_def np_put_def del: upt.simps)
qed

subsection \<open>Centring\<close>

lemma center_rows_result:
  assumes "distinct I" "\<forall>i \<in> set I. 0 \<le> i \<and> i < int (length b)" "j0 + length I \<le> length g"
    "\<forall>x \<in> set g. 0 \<le> x \<and> x < int (length nl)"
  shows "\<exists>b'. center_rows b I j0 g c nl = Some b' \<and> length b' = length b \<and>
    (\<forall>i < length b. b' ! i =
       (case written I (take (length I) (drop j0 g)) i of None \<Rightarrow> b ! i
        | Some x \<Rightarrow> map2 (-) (b ! i) (map (\<lambda>y. y / nl ! nat x) c)))"
  using assms
proof (induction I arbitrary: b j0)
  case Nil
  then show ?case by (simp add: written_def)
next
  case (Cons i I)
  have i: "0 \<le> i" "i < int (length b)" using Cons.prems(2) by auto
  have j0: "j0 < length g" using Cons.prems(3) by simp
  have gj: "0 \<le> g ! j0" "g ! j0 < int (length nl)" using Cons.prems(4) j0 by auto
  let ?row = "map2 (-) (b ! nat i) (map (\<lambda>y. y / nl ! nat (g ! j0)) c)"
  let ?b1 = "b[nat i := ?row]"
  have step: "center_rows b (i # I) j0 g c nl = center_rows ?b1 I (Suc j0) g c nl"
    using i j0 gj by (simp add: py_get_def py_set_def py_index_def)
  have "\<exists>b'. center_rows ?b1 I (Suc j0) g c nl = Some b' \<and> length b' = length ?b1 \<and>
    (\<forall>a < length ?b1. b' ! a =
       (case written I (take (length I) (drop (Suc j0) g)) a of None \<Rightarrow> ?b1 ! a
        | Some x \<Rightarrow> map2 (-) (?b1 ! a) (map (\<lambda>y. y / nl ! nat x) c)))"
    using Cons.prems by (intro Cons.IH) auto
  then obtain b' where b': "center_rows ?b1 I (Suc j0) g c nl = Some b'" "length b' = length b"
    and rows: "\<And>a. a < length b \<Longrightarrow> b' ! a =
       (case written I (take (length I) (drop (Suc j0) g)) a of None \<Rightarrow> ?b1 ! a
        | Some x \<Rightarrow> map2 (-) (?b1 ! a) (map (\<lambda>y. y / nl ! nat x) c))"
    by auto
  have tk: "take (length (i # I)) (drop j0 g) = g ! j0 # take (length I) (drop (Suc j0) g)"
    using j0 by (simp add: Cons_nth_drop_Suc[symmetric])
  have lt: "length (take (length I) (drop (Suc j0) g)) = length I" using Cons.prems(3) by simp
  have "nat i \<notin> nat ` set I" using Cons.prems(1,2) by (auto simp: eq_nat_nat_iff)
  then have none: "written I (take (length I) (drop (Suc j0) g)) (nat i) = None"
    using written_None[OF lt] by simp
  have "b' ! a = (case written (i # I) (take (length (i # I)) (drop j0 g)) a of None \<Rightarrow> b ! a
        | Some x \<Rightarrow> map2 (-) (b ! a) (map (\<lambda>y. y / nl ! nat x) c))" if a: "a < length b" for a
  proof (cases "a = nat i")
    case True
    then show ?thesis using rows[OF a] none a unfolding tk
      by (auto simp: written_def split: option.splits)
  next
    case False
    then show ?thesis using rows[OF a] unfolding tk
      by (auto simp: written_def split: option.splits)
  qed
  then show ?case using b' step by auto
qed

lemma weight_total:
  assumes "labelled n k I g" "c < k"
  shows "(\<Sum>i < n. weight I g c i) = 1"
proof -
  have d: "distinct I" and rng: "\<forall>i \<in> set I. 0 \<le> i \<and> i < int n" and len: "length g = length I"
    and sg: "set g = {0..<int k}"
    using assms(1) by (simp_all add: labelled_def list_all_iff)
  have "int c \<in> set g" using sg assms(2) by simp
  then have pos: "class_count g c \<noteq> 0" by (auto simp: class_count_def filter_empty_conv)
  have "(\<Sum>i < n. weight I g c i)
      = sum_list (map (\<lambda>x. if x = int c then 1 / real (class_count g c) else 0) g)"
    unfolding weight_def by (rule sum_written[OF d rng len])
  also have "\<dots> = real (class_count g c) * (1 / real (class_count g c))"
    by (simp add: sum_list_indicator class_count_def)
  also have "\<dots> = 1" using pos by simp
  finally show ?thesis .
qed

text \<open>
  Claim C4.  For a label set of distinct vertices whose labels are the integers \<open>0..k-1\<close>,
  the matrix assembled by \<^verbatim>\<open>poisson\<close> carries, before centring, the weight \<open>1/n\<^sub>c\<close> at every
  labelled vertex of class \<open>c\<close> (and zero for the other classes), and after the loop that
  subtracts the class means every class column of the source \<open>b\<close> sums to zero.
\<close>

theorem poisson_source_centered:
  assumes lab: "labelled n k I g"
  shows "\<exists>Kg nl b. poisson_weights n I g = Some (Kg, nl) \<and> poisson_source n I g = Some b \<and>
     (\<forall>j < length I. \<forall>c < k.
        Kg ! c ! nat (I ! j) = (if g ! j = int c then 1 / real (class_count g c) else 0)) \<and>
     is_matrix n k b \<and> (\<forall>c < k. (\<Sum>i < n. b ! i ! c) = 0)"
proof -
  have d: "distinct I" and rng: "\<forall>i \<in> set I. 0 \<le> i \<and> i < int n" and len: "length g = length I"
    and sg: "set g = {0..<int k}" and k: "0 < k"
    using lab by (simp_all add: labelled_def list_all_iff)
  let ?Kg = "map (\<lambda>c. map (\<lambda>i. weight I g c i) [0..<n]) [0..<k]"
  let ?nl = "map (\<lambda>c. real (class_count g c)) [0..<k]"
  have W: "poisson_weights n I g = Some (?Kg, ?nl)" by (rule poisson_weights_eq[OF lab])
  have gne: "g \<noteq> []" using sg k by auto
  then have "I \<noteq> []" using len by auto
  then have n: "0 < n" using rng by (cases I) auto
  \<comment> \<open>the weights at the labelled vertices\<close>
  have at_labels: "?Kg ! c ! nat (I ! j) = (if g ! j = int c then 1 / real (class_count g c) else 0)"
    if "j < length I" "c < k" for j c
  proof -
    have "nat (I ! j) < n" using rng that(1) by (metis nat_less_iff nth_mem nat_0_le of_nat_0_le_iff)
    moreover have "written I g (nat (I ! j)) = Some (g ! j)"
      using written_nth[OF d _ len that(1)] rng by auto
    ultimately show ?thesis using that(2) by (simp add: weight_def)
  qed
  \<comment> \<open>the source before centring, and the class means\<close>
  have ugr: "np_unique (map real_of_int g) = map real [0..<k]"
    using np_unique_range[OF set_real_labels[OF sg]] .
  have sh: "shape1 ?Kg = n" using k by (simp add: shape1_def upt_rec[of 0 k])
  let ?b0 = "map (\<lambda>i. map (\<lambda>c. weight I g c i) [0..<k]) [0..<n]"
  have b0: "np_transpose ?Kg = ?b0"
    by (simp only: np_transpose_def[of ?Kg] sh) (simp add: column_def comp_def)
  let ?c = "map (\<lambda>row. sum_list row / real k) ?Kg"
  have cvec: "?c = replicate k (1 / real k)"
  proof (rule nth_equalityI)
    show "length ?c = length (replicate k (1 / real k))" by simp
    fix c assume "c < length ?c"
    then have c: "c < k" by simp
    have "sum_list (map (\<lambda>i. weight I g c i) [0..<n]) = (\<Sum>i < n. weight I g c i)"
      by (simp add: interv_sum_list_conv_sum_set_nat atLeast0LessThan)
    then show "?c ! c = replicate k (1 / real k) ! c"
      using c weight_total[OF lab c] by simp
  qed
  have gnl: "\<forall>x \<in> set g. 0 \<le> x \<and> x < int (length ?nl)" using sg by auto
  from center_rows_result[of I ?b0 0 g ?nl ?c] d rng len gnl
  obtain b where b: "center_rows ?b0 I 0 g ?c ?nl = Some b" "length b = n"
    and rows: "\<And>i. i < n \<Longrightarrow> b ! i =
       (case written I g i of None \<Rightarrow> ?b0 ! i
        | Some x \<Rightarrow> map2 (-) (?b0 ! i) (map (\<lambda>y. y / ?nl ! nat x) ?c))"
    by auto
  note rows' = rows[unfolded cvec]
  have S: "poisson_source n I g = Some b"
    unfolding poisson_source_def W using b(1) by (simp add: Let_def ugr b0 del: upt.simps)
  \<comment> \<open>the entries of the centred source\<close>
  have inrange: "0 \<le> x \<and> nat x < k" if "written I g i = Some x" for i x
  proof -
    from written_Some_ex[OF that] have "x \<in> set g" by auto
    then show ?thesis using sg by auto
  qed
  have entry: "b ! i ! c = weight I g c i -
      (case written I g i of None \<Rightarrow> 0 | Some x \<Rightarrow> (1 / real k) / real (class_count g (nat x)))"
    if "i < n" "c < k" for i c
  proof (cases "written I g i")
    case None
    then show ?thesis using rows[OF that(1)] that by simp
  next
    case (Some x)
    have x: "nat x < k" using inrange[OF Some] by simp
    have "b ! i = map2 (-) (?b0 ! i) (map (\<lambda>y. y / ?nl ! nat x) (replicate k (1 / real k)))"
      using rows'[OF that(1)] Some by simp
    then show ?thesis using that x Some by simp
  qed
  have rowlen: "length (b ! i) = k" if "i < n" for i
  proof (cases "written I g i")
    case None
    then show ?thesis using rows[OF that] that by simp
  next
    case (Some x)
    then show ?thesis using rows'[OF that] that by simp
  qed
  have M: "is_matrix n k b"
    using b(2) rowlen by (auto simp: is_matrix_def list_all_iff in_set_conv_nth)
  \<comment> \<open>every class column sums to zero\<close>
  have cc: "real (class_count g (nat x)) = real (length (filter (\<lambda>y. y = x) g))" if "x \<in> set g" for x
    using that sg by (simp add: class_count_def)
  have zero: "(\<Sum>i < n. b ! i ! c) = 0" if c: "c < k" for c
  proof -
    have "(\<Sum>i < n. b ! i ! c) = (\<Sum>i < n. weight I g c i) -
        (\<Sum>i < n. case written I g i of None \<Rightarrow> 0 | Some x \<Rightarrow> (1 / real k) / real (class_count g (nat x)))"
      using entry[OF _ c] by (simp add: sum_subtractf)
    also have "(\<Sum>i < n. weight I g c i) = 1" by (rule weight_total[OF lab c])
    also have "(\<Sum>i < n. case written I g i of None \<Rightarrow> 0 | Some x \<Rightarrow> (1 / real k) / real (class_count g (nat x)))
        = sum_list (map (\<lambda>x. (1 / real k) / real (class_count g (nat x))) g)"
      by (rule sum_written[OF d rng len])
    also have "\<dots> = sum_list (map (\<lambda>x. (1 / real k) * (1 / real (length (filter (\<lambda>y. y = x) g)))) g)"
      by (intro arg_cong[where f = sum_list] map_cong refl) (simp add: cc)
    also have "\<dots> = (1 / real k) * sum_list (map (\<lambda>x. 1 / real (length (filter (\<lambda>y. y = x) g))) g)"
      by (rule sum_list_const_mult)
    also have "\<dots> = (1 / real k) * real (card (set g))" by (simp only: sum_list_inverse_count)
    also have "\<dots> = 1" using k by (simp add: sg)
    finally show ?thesis by simp
  qed
  from W S at_labels M zero show ?thesis by blast
qed

theorem poisson_source_centered_witness:
  "labelled 4 2 [0, 2, 3] [0, 1, 1] \<and>
   (\<exists>Kg nl b. poisson_weights 4 [0, 2, 3] [0, 1, 1] = Some (Kg, nl) \<and>
      poisson_source 4 [0, 2, 3] [0, 1, 1] = Some b \<and>
     (\<forall>j < length [0, 2, 3::int]. \<forall>c < 2.
        Kg ! c ! nat ([0, 2, 3] ! j) = (if [0, 1, 1] ! j = int c then 1 / real (class_count [0, 1, 1] c) else 0)) \<and>
     is_matrix 4 2 b \<and> (\<forall>c < 2. (\<Sum>i < 4. b ! i ! c) = 0))"
proof -
  have "set [0, 1, 1::int] = {0..<int 2}" by auto
  then have l: "labelled 4 2 [0, 2, 3] [0, 1, 1]" by (simp add: labelled_def)
  from l poisson_source_centered[OF l] show ?thesis by blast
qed

subsection \<open>The diffusion loop\<close>

text \<open>
  The loop of \<^verbatim>\<open>poisson\<close> need not end, so a call has more outcomes than a result or an
  exception.  \<open>Not_finite\<close> stands for the runs in which a floating point division by zero
  happens while the matrices are set up (numpy goes on with \<open>inf\<close> or \<open>nan\<close>, which the real
  numbers of this model do not have); \<open>denominators\<close> keeps the numbers that the setup divides
  by.  \<open>Exits\<close> is the end of the process by \<^verbatim>\<open>sys.exit()\<close>.
\<close>

datatype 'a outcome = Returns 'a | Raises | Diverges | Not_finite | Exits

record poisson_setup =
  s_Db :: mat
  s_P :: mat
  s_RW :: mat
  s_v :: vec
  s_vinf :: vec
  s_n :: nat
  s_k :: nat
  denominators :: vec

definition max_axis0 :: "mat \<Rightarrow> vec" where
  \<comment> \<open>\<^verbatim>\<open>np.max(Kg,axis=0)\<close>\<close>
  "max_axis0 M = map (\<lambda>j. np_max (column M j)) [0..<shape1 M]"

text \<open>
  Lines 1428 and 1449 to 1459.  A weight matrix that is not square makes the sparse
  operations raise.  \<^verbatim>\<open>b = np.transpose(Kg)\<close> is a view, so the matrix \<open>Kg\<close> that \<open>v\<close> is
  computed from is the centred one.
\<close>

definition poisson_matrices :: "mat \<Rightarrow> int list \<Rightarrow> int list \<Rightarrow> poisson_setup option" where
  "poisson_matrices W I g = do {
     let n = shape0 W;
     let k = length (np_unique (map real_of_int g));
     if \<not> is_matrix n n W then None else do {
       let W = diag_multiply W 0;
       b \<leftarrow> poisson_source n I g;
       \<comment> \<open>\<open>b\<close> is a view of \<open>Kg\<close>: the loop that centred \<open>b\<close> has changed \<open>Kg\<close> too\<close>
       let Kg = np_transpose b;
       let L = graph_laplacian_none W;
       let deg_eps = degrees (mat_add W (mat_scale (1 / 10000000000) (identity n)));
       let D = spdiags (map (\<lambda>d. 1 / d) deg_eps) n;
       let P = mat_sub (identity n) (matmul D L);
       let Db = matmul D b;
       let v = max_axis0 Kg;
       let sum_v = sum_list v;
       let v = map (\<lambda>x. x / sum_v) v;
       let sum_d = sum_list (degrees W);
       let vinf = map (\<lambda>d. d / sum_d) (degrees W);
       let RW = matmul W D;
       Some \<lparr>s_Db = Db, s_P = P, s_RW = RW, s_v = v, s_vinf = vinf, s_n = n, s_k = k,
              denominators = sum_v # sum_d # deg_eps\<rparr>
     }
   }"

text \<open>
  Lines 1463 to 1498.  The loops of the CPU and of the GPU branch run the same recurrence
  (\<^verbatim>\<open>torch.sparse.addmm(Dbt,Pt,ut)\<close> is \<open>Db + P u\<close>); \<open>None\<close> is the loop that never ends.
\<close>

partial_function (option) poisson_loop ::
  "poisson_setup \<Rightarrow> mat \<Rightarrow> vec \<Rightarrow> nat \<Rightarrow> (mat \<times> nat) option" where
  "poisson_loop s u v T =
     (if np_max (map abs (map2 (-) v (s_vinf s))) > 1 / real (s_n s)
      then poisson_loop s (mat_add (s_Db s) (matmul (s_P s) u)) (mv (s_RW s) v) (T + 1)
      else Some (u, T))"

definition poisson :: "mat \<Rightarrow> int list \<Rightarrow> int list \<Rightarrow> bool \<Rightarrow> (mat \<times> nat) outcome" where
  "poisson W I g use_cuda =
     (case poisson_matrices W I g of
        None \<Rightarrow> Raises
      | Some s \<Rightarrow>
          if \<not> list_all (\<lambda>d. d \<noteq> 0) (denominators s) then Not_finite
          else
            let u = replicate (s_n s) (replicate (s_k s) 0);
                r = (if use_cuda then poisson_loop s u (s_v s) 0
                     else poisson_loop s u (s_v s) 0)
            in case r of None \<Rightarrow> Diverges | Some (u, T) \<Rightarrow> Returns (np_transpose u, T))"


definition K5 :: mat where
  \<comment> \<open>the complete graph on five vertices, unit weights\<close>
  "K5 = map (\<lambda>i. map (\<lambda>j. if i = j then 0 else 1) [0..<5]) [0..<5]"

definition walk :: "poisson_setup \<Rightarrow> nat \<Rightarrow> vec" where
  \<comment> \<open>the vector \<open>v\<close> after \<open>t\<close> passes through the loop\<close>
  "walk s t = ((mv (s_RW s)) ^^ t) (s_v s)"

definition diffusion_step :: "poisson_setup \<Rightarrow> mat \<Rightarrow> mat" where
  \<comment> \<open>\<^verbatim>\<open>u = Db + P*u\<close>\<close>
  "diffusion_step s u = mat_add (s_Db s) (matmul (s_P s) u)"

definition diffuse :: "poisson_setup \<Rightarrow> nat \<Rightarrow> mat" where
  \<comment> \<open>the iterate \<open>u\<close> after \<open>t\<close> passes through the loop\<close>
  "diffuse s t = ((diffusion_step s) ^^ t) (replicate (s_n s) (replicate (s_k s) 0))"

definition mixed :: "poisson_setup \<Rightarrow> vec \<Rightarrow> bool" where
  "mixed s v = (np_max (map abs (map2 (-) v (s_vinf s))) \<le> 1 / real (s_n s))"

lemma poisson_loop_stop: "mixed s v \<Longrightarrow> poisson_loop s u v T = Some (u, T)"
  by (subst poisson_loop.simps) (simp add: mixed_def)

lemma poisson_loop_step:
  "\<not> mixed s v \<Longrightarrow>
   poisson_loop s u v T = poisson_loop s (diffusion_step s u) (mv (s_RW s) v) (T + 1)"
  by (subst poisson_loop.simps) (simp add: mixed_def diffusion_step_def)

lemma poisson_loop_steps:
  assumes "\<forall>t' < t. \<not> mixed s ((mv (s_RW s) ^^ t') v)"
  shows "poisson_loop s u v T =
         poisson_loop s ((diffusion_step s ^^ t) u) ((mv (s_RW s) ^^ t) v) (T + t)"
  using assms
proof (induction t arbitrary: u v T)
  case 0
  then show ?case by simp
next
  case (Suc t)
  have first: "\<not> mixed s v" using Suc.prems by (metis funpow_0 zero_less_Suc)
  have rest: "\<forall>t' < t. \<not> mixed s ((mv (s_RW s) ^^ t') (mv (s_RW s) v))"
  proof (intro allI impI)
    fix t' assume "t' < t"
    then have "Suc t' < Suc t" by simp
    then have "\<not> mixed s ((mv (s_RW s) ^^ Suc t') v)" using Suc.prems by blast
    then show "\<not> mixed s ((mv (s_RW s) ^^ t') (mv (s_RW s) v))" by (simp add: funpow_swap1)
  qed
  show ?case
    unfolding poisson_loop_step[OF first] Suc.IH[OF rest]
    by (simp add: funpow_swap1)
qed

lemma poisson_loop_returns:
  assumes "poisson_loop s u v T = Some y"
  shows "\<exists>t. mixed s ((mv (s_RW s) ^^ t) v)"
proof (rule poisson_loop.raw_induct
    [where P = "\<lambda>s u v T y. \<exists>t. mixed s ((mv (s_RW s) ^^ t) v)", OF _ assms])
  fix loop :: "poisson_setup \<Rightarrow> mat \<Rightarrow> vec \<Rightarrow> nat \<Rightarrow> (mat \<times> nat) option"
  fix s u v T y
  assume IH: "\<And>s u v T y. loop s u v T = Some y \<Longrightarrow> \<exists>t. mixed s ((mv (s_RW s) ^^ t) v)"
    and body: "(if 1 / real (s_n s) < np_max (map abs (map2 (-) v (s_vinf s)))
        then loop s (mat_add (s_Db s) (matmul (s_P s) u)) (mv (s_RW s) v) (T + 1)
        else Some (u, T)) = Some y"
  show "\<exists>t. mixed s ((mv (s_RW s) ^^ t) v)"
  proof (cases "mixed s v")
    case True
    then show ?thesis by (metis funpow_0)
  next
    case False
    then have "loop s (mat_add (s_Db s) (matmul (s_P s) u)) (mv (s_RW s) v) (T + 1) = Some y"
      using body by (simp add: mixed_def not_le)
    from IH[OF this] obtain t where "mixed s ((mv (s_RW s) ^^ t) (mv (s_RW s) v))" by blast
    then have "mixed s ((mv (s_RW s) ^^ Suc t) v)" by (simp add: funpow_swap1)
    then show ?thesis by blast
  qed
qed

text \<open>
  Claim C3 as stated fails in two places.  On the path \<open>0 - 1 - 2\<close> with unit weights and
  labels at the two ends, \<open>v\<close> starts at \<open>(1/2, 0, 1/2)\<close>, the normalised label weights, not
  at the uniform vector \<open>(1/3, 1/3, 1/3)\<close>; and \<open>u\<close> is propagated by \<open>P = I - D L\<close> (rows
  scaled by the inverse degrees) while \<open>v\<close> is propagated by \<open>RW = W D\<close> (columns scaled),
  which are different matrices.
\<close>

theorem poisson_start_not_uniform:
  "map_option s_v (poisson_matrices [[0, 1, 0], [1, 0, 1], [0, 1, 0]] [0, 2] [0, 1]) = Some [1 / 2, 0, 1 / 2]
   \<and> map_option s_P (poisson_matrices [[0, 1, 0], [1, 0, 1], [0, 1, 0]] [0, 2] [0, 1]) =
      Some [[1 / 10000000001, 10000000000 / 10000000001, 0],
            [10000000000 / 20000000001, 1 / 20000000001, 10000000000 / 20000000001],
            [0, 10000000000 / 10000000001, 1 / 10000000001]]
   \<and> map_option s_RW (poisson_matrices [[0, 1, 0], [1, 0, 1], [0, 1, 0]] [0, 2] [0, 1]) =
      Some [[0, 10000000000 / 20000000001, 0],
            [10000000000 / 10000000001, 0, 10000000000 / 10000000001],
            [0, 10000000000 / 20000000001, 0]]"
  by code_simp

text \<open>
  Claim C3, amended.  When the setup succeeds with no division by zero, \<^verbatim>\<open>poisson\<close>, on
  the CPU and on the GPU path alike, returns after exactly \<open>T\<close> passes through the loop,
  \<open>T\<close> being the least number with \<open>max|v\<^sub>T - vinf| \<le> 1/n\<close>, and does not return when there
  is no such number.  Here \<open>n\<close> is the number of vertices, \<open>vinf\<close> is the degree vector of
  the weight matrix with its diagonal removed, divided by its sum, \<open>v\<^sub>0\<close> is \<open>s_v\<close> (the
  columnwise maximum of the centred label weights, divided by its sum) and
  \<open>v\<^bsub>t+1\<^esub> = RW v\<^sub>t\<close>.
\<close>

theorem poisson_stops_when_mixed:
  assumes "poisson_matrices W I g = Some s" "list_all (\<lambda>d. d \<noteq> 0) (denominators s)"
  shows "poisson W I g use_cuda =
           (if \<exists>t. mixed s (walk s t)
            then Returns (np_transpose (diffuse s (LEAST t. mixed s (walk s t))),
                          LEAST t. mixed s (walk s t))
            else Diverges)
         \<and> s_n s = shape0 W
         \<and> s_vinf s = map (\<lambda>d. d / sum_list (degrees (diag_multiply W 0))) (degrees (diag_multiply W 0))"
proof -
  let ?u0 = "replicate (s_n s) (replicate (s_k s) (0::real))"
  have run: "poisson W I g use_cuda =
      (case poisson_loop s ?u0 (s_v s) 0 of None \<Rightarrow> Diverges | Some (u, T) \<Rightarrow> Returns (np_transpose u, T))"
    using assms by (simp add: poisson_def Let_def)
  have loop: "poisson_loop s ?u0 (s_v s) 0 =
      (if \<exists>t. mixed s (walk s t)
       then Some (diffuse s (LEAST t. mixed s (walk s t)), LEAST t. mixed s (walk s t)) else None)"
  proof (cases "\<exists>t. mixed s (walk s t)")
    case True
    let ?T = "LEAST t. mixed s (walk s t)"
    have at: "mixed s (walk s ?T)" using True by (rule LeastI_ex)
    have before: "\<forall>t' < ?T. \<not> mixed s ((mv (s_RW s) ^^ t') (s_v s))"
      using not_less_Least[of _ "\<lambda>t. mixed s (walk s t)"] by (auto simp: walk_def)
    have "poisson_loop s ?u0 (s_v s) 0 = poisson_loop s (diffuse s ?T) (walk s ?T) ?T"
      using poisson_loop_steps[OF before, of ?u0 0] by (simp add: diffuse_def walk_def)
    also have "\<dots> = Some (diffuse s ?T, ?T)" by (rule poisson_loop_stop[OF at])
    finally show ?thesis using True by simp
  next
    case False
    have "poisson_loop s ?u0 (s_v s) 0 = None"
    proof (cases "poisson_loop s ?u0 (s_v s) 0")
      case (Some y)
      from poisson_loop_returns[OF this] False show ?thesis by (simp add: walk_def)
    qed simp
    then show ?thesis using False by simp
  qed
  have shape: "s_n s = shape0 W
      \<and> s_vinf s = map (\<lambda>d. d / sum_list (degrees (diag_multiply W 0))) (degrees (diag_multiply W 0))"
    using assms(1) by (auto simp: poisson_matrices_def Let_def split: if_splits Option.bind_splits)
  show ?thesis unfolding run loop using shape by simp
qed

lemma cex: "map_option s_v (poisson_matrices [[0, 1, 0], [1, 0, 1], [0, 1, 0]] [0, 2] [0, 1]) = Some [1 / 2, 0, 1 / 2]"
  by code_simp

lemma w1: "poisson_matrices K5 [0, 1] [0, 1] \<noteq> None"
  by code_simp

lemma w2: "list_all (\<lambda>d. d \<noteq> 0) (denominators (the (poisson_matrices K5 [0, 1] [0, 1])))"
  by code_simp

theorem poisson_stops_when_mixed_witness:
  "poisson K5 [0, 1] [0, 1] False =
     Returns (np_transpose (diffuse (the (poisson_matrices K5 [0, 1] [0, 1])) 1), 1)"
proof -
  let ?s = "the (poisson_matrices K5 [0, 1] [0, 1])"
  have "poisson_matrices K5 [0, 1] [0, 1] \<noteq> None" by code_simp
  then have h1: "poisson_matrices K5 [0, 1] [0, 1] = Some ?s" by simp
  have h2: "list_all (\<lambda>d. d \<noteq> 0) (denominators ?s)" by code_simp
  have m1: "mixed ?s (walk ?s 1)" by code_simp
  have m0: "\<not> mixed ?s (walk ?s 0)" by code_simp
  have least: "(LEAST t. mixed ?s (walk ?s t)) = 1"
  proof (rule Least_equality)
    show "mixed ?s (walk ?s 1)" by (rule m1)
    fix y assume "mixed ?s (walk ?s y)"
    then have "y \<noteq> 0" using m0 by (metis)
    then show "1 \<le> y" by simp
  qed
  have ex: "\<exists>t. mixed ?s (walk ?s t)" using m1 by blast
  from poisson_stops_when_mixed[OF h1 h2, of False] show ?thesis
    by (simp only: ex least if_True)
qed

section \<open>Indexed binary heap\<close>

text \<open>
  The heap of \<^verbatim>\<open>nearestneighbor\<close>: \<open>d\<close> holds the keys by vertex, \<open>h\<close> the vertices by heap
  slot (slot 0 is not used), \<open>p\<close> the slot of every vertex, \<open>s\<close> the number of elements.
  Slots and vertices are Python integers, so they are of type \<open>int\<close> and every access goes
  through \<open>py_get\<close> and \<open>py_set\<close>; \<open>h\<close> and \<open>p\<close> are changed in place and returned.
\<close>

definition trunc_half :: "int \<Rightarrow> int" where
  \<comment> \<open>\<^verbatim>\<open>int(i/2)\<close>: the quotient rounded towards zero\<close>
  "trunc_half i = (if 0 \<le> i then i div 2 else - ((- i) div 2))"

type_synonym sift_state = "int list \<times> int list \<times> int \<times> int"

definition SiftUp_body :: "real list \<Rightarrow> sift_state \<Rightarrow> sift_state option" where
  "SiftUp_body d st = (case st of (h, p, i, par) \<Rightarrow> do {
     hpar \<leftarrow> py_get h par;
     dpar \<leftarrow> py_get d hpar;
     hi \<leftarrow> py_get h i;
     di \<leftarrow> py_get d hi;
     if dpar > di then do {
       \<comment> \<open>swap in heap\<close>
       h \<leftarrow> py_set h par hi;
       h \<leftarrow> py_set h i hpar;
       \<comment> \<open>update pointers to heap\<close>
       hi \<leftarrow> py_get h i;
       p \<leftarrow> py_set p hi i;
       hpar \<leftarrow> py_get h par;
       p \<leftarrow> py_set p hpar par;
       \<comment> \<open>update parent/child indices\<close>
       Some (h, p, par, trunc_half par)
     } else Some (h, p, i, 0)
   })"

function SiftUp_loop :: "real list \<Rightarrow> sift_state \<Rightarrow> (int list \<times> int list) option" where
  "SiftUp_loop d (h, p, i, par) =
     (if par \<noteq> 0
      then (case SiftUp_body d (h, p, i, par) of None \<Rightarrow> None | Some st \<Rightarrow> SiftUp_loop d st)
      else Some (h, p))"
  by pat_completeness auto

lemma SiftUp_body_parent:
  "SiftUp_body d (h, p, i, par) = Some (h', p', i', par') \<Longrightarrow> par' = 0 \<or> par' = trunc_half par"
  by (auto simp: SiftUp_body_def split: Option.bind_splits if_splits)

lemma trunc_half_less: "par \<noteq> 0 \<Longrightarrow> nat \<bar>trunc_half par\<bar> < nat \<bar>par\<bar>"
  by (auto simp: trunc_half_def)

termination SiftUp_loop
proof (relation "measure (\<lambda>(d, h, p, i, par). nat \<bar>par\<bar>)")
  show "wf (measure (\<lambda>(d, h, p, i, par). nat \<bar>par\<bar>))" by simp
next
  fix d h p i par st
  assume "par \<noteq> 0" "SiftUp_body d (h, p, i, par) = Some st"
  then show "((d, st), (d, h, p, i, par)) \<in> measure (\<lambda>(d, h, p, i, par). nat \<bar>par\<bar>)"
    using SiftUp_body_parent[of d h p i par] trunc_half_less[of par]
    by (cases st) auto
qed

definition SiftUp :: "real list \<Rightarrow> int list \<Rightarrow> int \<Rightarrow> int list \<Rightarrow> int \<Rightarrow> (int list \<times> int list) option" where
  "SiftUp d h s p i = SiftUp_loop d (h, p, i, trunc_half i)"

definition SiftDown_body :: "real list \<Rightarrow> int \<Rightarrow> sift_state \<Rightarrow> sift_state option" where
  "SiftDown_body d s st = (case st of (h, p, i, ci) \<Rightarrow> do {
     \<comment> \<open>choose smallest child\<close>
     hc1 \<leftarrow> py_get h (ci + 1);
     dc1 \<leftarrow> py_get d hc1;
     hc \<leftarrow> py_get h ci;
     dc \<leftarrow> py_get d hc;
     let ci = (if dc1 < dc \<and> ci + 1 \<le> s then ci + 1 else ci);
     hc \<leftarrow> py_get h ci;
     dc \<leftarrow> py_get d hc;
     hi \<leftarrow> py_get h i;
     di \<leftarrow> py_get d hi;
     if dc < di then do {
       \<comment> \<open>swap in heap\<close>
       h \<leftarrow> py_set h ci hi;
       h \<leftarrow> py_set h i hc;
       \<comment> \<open>update pointers to heap\<close>
       hi \<leftarrow> py_get h i;
       p \<leftarrow> py_set p hi i;
       hc \<leftarrow> py_get h ci;
       p \<leftarrow> py_set p hc ci;
       \<comment> \<open>update parent/child indices\<close>
       Some (h, p, ci, 2 * ci)
     } else Some (h, p, i, s + 1)
   })"

function SiftDown_loop :: "real list \<Rightarrow> int \<Rightarrow> sift_state \<Rightarrow> (int list \<times> int list) option" where
  "SiftDown_loop d s (h, p, i, ci) =
     (if ci \<le> s
      then (case SiftDown_body d s (h, p, i, ci) of None \<Rightarrow> None | Some st \<Rightarrow> SiftDown_loop d s st)
      else Some (h, p))"
  by pat_completeness auto

text \<open>
  The loop of \<^verbatim>\<open>SiftDown\<close> ends for every content of the arrays: going down, the slot
  grows towards \<open>s\<close>; from a negative slot it falls until the access to \<open>h\<close> raises.
\<close>

definition slot_rank :: "int list \<Rightarrow> int \<Rightarrow> int \<Rightarrow> nat" where
  "slot_rank h s i = (if i < 0 then nat (int (length h) + i + 1) else nat (s + 1 - i))"

definition sift_down_measure :: "real list \<times> int \<times> sift_state \<Rightarrow> nat" where
  "sift_down_measure = (\<lambda>(d, s, h, p, i, ci).
     if s < ci then 0
     else if ci = 2 * i then 1 + slot_rank h s i
     else 2 + max (slot_rank h s ci) (slot_rank h s (ci + 1)))"

lemma py_get_Some_range: "py_get xs i = Some x \<Longrightarrow> - int (length xs) \<le> i \<and> i < int (length xs)"
  by (auto simp: py_get_def py_index_def split: if_splits)

lemma SiftDown_body_cases:
  assumes "SiftDown_body d s (h, p, i, ci) = Some (h', p', i', ci')"
  shows "length h' = length h \<and>
     ((i' = i \<and> ci' = s + 1) \<or>
      (ci' = 2 * i' \<and> (i' = ci \<or> i' = ci + 1 \<and> ci + 1 \<le> s) \<and>
       - int (length h) \<le> i \<and> i < int (length h) \<and> - int (length h) \<le> i' \<and>
       (\<exists>a b. py_get h i' = Some a \<and> py_get h i = Some b \<and> a \<noteq> b)))"
proof -
  from assms obtain hc1 dc1 hc0 dc0 where
    r1: "py_get h (ci + 1) = Some hc1" "py_get d hc1 = Some dc1" "py_get h ci = Some hc0" "py_get d hc0 = Some dc0"
    unfolding SiftDown_body_def by (auto split: Option.bind_splits)
  define c where "c = (if dc1 < dc0 \<and> ci + 1 \<le> s then ci + 1 else ci)"
  from assms r1 obtain hc dc hi di where
    r2: "py_get h c = Some hc" "py_get d hc = Some dc" "py_get h i = Some hi" "py_get d hi = Some di"
    unfolding SiftDown_body_def c_def by (auto simp: Let_def split: Option.bind_splits)
  show ?thesis
  proof (cases "dc < di")
    case False
    then show ?thesis using assms r1 r2 unfolding SiftDown_body_def c_def[symmetric]
      by (auto simp: Let_def c_def[symmetric])
  next
    case True
    then have ne: "hc \<noteq> hi" using r2 by auto
    from True assms r1 r2 obtain h1 where
      h1: "py_set h c hi = Some h1" "py_set h1 i hc = Some h'" and res: "i' = c" "ci' = 2 * c"
      unfolding SiftDown_body_def by (auto simp: Let_def c_def[symmetric] split: Option.bind_splits)
    have len: "length h' = length h" using h1 by (auto dest!: py_set_length)
    have "i' = ci \<or> i' = ci + 1 \<and> ci + 1 \<le> s" using res by (auto simp: c_def split: if_splits)
    moreover have "- int (length h) \<le> i \<and> i < int (length h)" using py_get_Some_range[OF r2(3)] .
    moreover have "- int (length h) \<le> i'" using py_get_Some_range[OF r2(1)] res by simp
    ultimately show ?thesis using len res r2 ne by auto
  qed
qed

termination SiftDown_loop
proof (relation "measure sift_down_measure")
  show "wf (measure sift_down_measure)" by simp
next
  fix d s h p i ci st
  assume run: "ci \<le> s" and body: "SiftDown_body d s (h, p, i, ci) = Some st"
  obtain h' p' i' ci' where st: "st = (h', p', i', ci')" by (cases st) auto
  note C = SiftDown_body_cases[OF body[unfolded st]]
  have len: "length h' = length h" using C by simp
  have "sift_down_measure (d, s, h', p', i', ci') < sift_down_measure (d, s, h, p, i, ci)"
  proof (cases "s < ci'")
    case True
    then show ?thesis using run by (simp add: sift_down_measure_def)
  next
    case False
    then have cont: "ci' = 2 * i'" "i' = ci \<or> i' = ci + 1 \<and> ci + 1 \<le> s"
      "- int (length h) \<le> i" "i < int (length h)" "- int (length h) \<le> i'"
      and ne: "\<exists>a b. py_get h i' = Some a \<and> py_get h i = Some b \<and> a \<noteq> b"
      using C by auto
    have ii: "i' \<noteq> i" using ne by auto
    show ?thesis
    proof (cases "ci = 2 * i")
      case inv: True
      have "slot_rank h' s i' < slot_rank h s i"
        using cont ii inv False run len by (auto simp: slot_rank_def)
      then show ?thesis using False run inv cont by (simp add: sift_down_measure_def)
    next
      case noinv: False
      have "slot_rank h' s i' \<le> max (slot_rank h s ci) (slot_rank h s (ci + 1))"
        using cont(2) len by (auto simp: slot_rank_def)
      then show ?thesis using False run noinv cont by (simp add: sift_down_measure_def)
    qed
  qed
  then show "((d, s, st), (d, s, h, p, i, ci)) \<in> measure sift_down_measure" by (simp add: st)
qed

definition SiftDown :: "real list \<Rightarrow> int list \<Rightarrow> int \<Rightarrow> int list \<Rightarrow> int \<Rightarrow> (int list \<times> int list) option" where
  "SiftDown d h s p i = SiftDown_loop d s (h, p, i, 2 * i)"

definition PopHeap :: "real list \<Rightarrow> int list \<Rightarrow> int \<Rightarrow> int list \<Rightarrow> (int \<times> int \<times> int list \<times> int list) option" where
  \<comment> \<open>returns the popped vertex, the new size, and the new contents of \<open>h\<close> and \<open>p\<close>\<close>
  "PopHeap d h s p = do {
     \<comment> \<open>index of smallest in heap\<close>
     i \<leftarrow> py_get h 1;
     \<comment> \<open>put last element on top of heap\<close>
     hs \<leftarrow> py_get h s;
     h \<leftarrow> py_set h 1 hs;
     \<comment> \<open>update pointer\<close>
     h1 \<leftarrow> py_get h 1;
     p \<leftarrow> py_set p h1 1;
     \<comment> \<open>sift down the heap\<close>
     (h, p) \<leftarrow> SiftDown d h (s - 1) p 1;
     Some (i, s - 1, h, p)
   }"

definition PushHeap :: "real list \<Rightarrow> int list \<Rightarrow> int \<Rightarrow> int list \<Rightarrow> int \<Rightarrow> (int \<times> int list \<times> int list) option" where
  \<comment> \<open>returns the new size and the new contents of \<open>h\<close> and \<open>p\<close>\<close>
  "PushHeap d h s p i = do {
     h \<leftarrow> py_set h (s + 1) i;
     p \<leftarrow> py_set p i (s + 1);
     (h, p) \<leftarrow> SiftUp d h (s + 1) p (s + 1);
     Some (s + 1, h, p)
   }"

subsection \<open>The heap invariants\<close>

definition key :: "real list \<Rightarrow> int list \<Rightarrow> nat \<Rightarrow> real" where
  \<comment> \<open>\<^verbatim>\<open>d[h[j]]\<close> for an occupied slot \<open>j\<close>\<close>
  "key d h j = d ! nat (h ! j)"

definition heap_struct :: "real list \<Rightarrow> int list \<Rightarrow> int list \<Rightarrow> int \<Rightarrow> bool" where
  \<comment> \<open>the slots \<open>1..s\<close> exist and hold vertices, every entry of \<open>h\<close> is an index of \<open>d\<close>,
      and \<open>p[h[j]] = j\<close> for every occupied slot \<open>j\<close>\<close>
  "heap_struct d h p s =
     (0 \<le> s \<and> s < int (length h) \<and> length p = length d \<and>
      list_all (\<lambda>v. - int (length d) \<le> v \<and> v < int (length d)) h \<and>
      list_all (\<lambda>j. 0 \<le> h ! j \<and> p ! nat (h ! j) = int j) [1..<Suc (nat s)])"

definition heap_order :: "real list \<Rightarrow> int list \<Rightarrow> int \<Rightarrow> bool" where
  \<comment> \<open>\<open>d[h[j]] \<ge> d[h[j/2]]\<close> for every occupied slot \<open>j > 1\<close>\<close>
  "heap_order d h s = list_all (\<lambda>j. key d h (j div 2) \<le> key d h j) [2..<Suc (nat s)]"

definition heap_inv :: "real list \<Rightarrow> int list \<Rightarrow> int list \<Rightarrow> int \<Rightarrow> bool" where
  "heap_inv d h p s = (heap_struct d h p s \<and> heap_order d h s)"

definition members :: "int list \<Rightarrow> int \<Rightarrow> int set" where
  \<comment> \<open>the vertices in the heap\<close>
  "members h s = set (map (\<lambda>j. h ! j) [1..<Suc (nat s)])"

lemma heap_struct_iff:
  "heap_struct d h p s \<longleftrightarrow>
     0 \<le> s \<and> s < int (length h) \<and> length p = length d \<and>
     (\<forall>v \<in> set h. - int (length d) \<le> v \<and> v < int (length d)) \<and>
     (\<forall>j. 1 \<le> j \<and> j \<le> nat s \<longrightarrow> 0 \<le> h ! j \<and> p ! nat (h ! j) = int j)"
  by (auto simp: heap_struct_def list_all_iff)

lemma heap_order_iff:
  "heap_order d h s \<longleftrightarrow> (\<forall>j. 2 \<le> j \<and> j \<le> nat s \<longrightarrow> key d h (j div 2) \<le> key d h j)"
  by (auto simp: heap_order_def list_all_iff)

lemma members_iff: "v \<in> members h s \<longleftrightarrow> (\<exists>j. 1 \<le> j \<and> j \<le> nat s \<and> h ! j = v)"
  by (auto simp: members_def)

lemma py_get_nat: "i < length xs \<Longrightarrow> py_get xs (int i) = Some (xs ! i)"
  by (simp add: py_get_def py_index_def)

lemma py_set_nat: "i < length xs \<Longrightarrow> py_set xs (int i) v = Some (xs[i := v])"
  by (simp add: py_set_def py_index_def)

lemma py_get_nonneg: "0 \<le> v \<Longrightarrow> v < int (length xs) \<Longrightarrow> py_get xs v = Some (xs ! nat v)"
  by (simp add: py_get_def py_index_def)

lemma py_set_nonneg: "0 \<le> v \<Longrightarrow> v < int (length xs) \<Longrightarrow> py_set xs v x = Some (xs[nat v := x])"
  by (simp add: py_set_def py_index_def)

lemma py_get_valid:
  "- int (length xs) \<le> v \<Longrightarrow> v < int (length xs) \<Longrightarrow> \<exists>x. py_get xs v = Some x"
  by (simp add: py_get_def py_index_def)

lemma struct_slot:
  assumes "heap_struct d h p s" "1 \<le> j" "j \<le> nat s"
  shows "j < length h" "0 \<le> h ! j" "h ! j < int (length d)" "nat (h ! j) < length d"
        "nat (h ! j) < length p" "p ! nat (h ! j) = int j"
proof -
  show j: "j < length h" using assms by (auto simp: heap_struct_iff)
  show 0: "0 \<le> h ! j" and "p ! nat (h ! j) = int j" using assms by (auto simp: heap_struct_iff)
  have "h ! j \<in> set h" using j by simp
  then show lt: "h ! j < int (length d)" using assms(1) by (auto simp: heap_struct_iff)
  show "nat (h ! j) < length d" using 0 lt by simp
  then show "nat (h ! j) < length p" using assms(1) by (simp add: heap_struct_iff)
qed

lemma struct_distinct:
  assumes "heap_struct d h p s" "1 \<le> j" "j \<le> nat s" "1 \<le> j'" "j' \<le> nat s" "j \<noteq> j'"
  shows "h ! j \<noteq> h ! j'" "nat (h ! j) \<noteq> nat (h ! j')"
proof -
  show "nat (h ! j) \<noteq> nat (h ! j')"
    using struct_slot(6)[OF assms(1,2,3)] struct_slot(6)[OF assms(1,4,5)] assms(6) by auto
  then show "h ! j \<noteq> h ! j'" by auto
qed

subsection \<open>Exchanging two slots\<close>

definition swap_slots :: "int list \<Rightarrow> int list \<Rightarrow> nat \<Rightarrow> nat \<Rightarrow> int list \<times> int list" where
  \<comment> \<open>the arrays after the vertices of the slots \<open>a\<close> and \<open>b\<close> were swapped and \<open>p\<close> updated\<close>
  "swap_slots h p a b = (h[a := h ! b, b := h ! a], p[nat (h ! a) := int b, nat (h ! b) := int a])"

lemma swap_nth:
  assumes "a < length h" "b < length h" "a \<noteq> b"
  shows "fst (swap_slots h p a b) ! a = h ! b" "fst (swap_slots h p a b) ! b = h ! a"
        "j \<noteq> a \<Longrightarrow> j \<noteq> b \<Longrightarrow> fst (swap_slots h p a b) ! j = h ! j"
        "length (fst (swap_slots h p a b)) = length h"
        "set (fst (swap_slots h p a b)) = set h"
proof -
  show "fst (swap_slots h p a b) ! a = h ! b" "fst (swap_slots h p a b) ! b = h ! a"
       "j \<noteq> a \<Longrightarrow> j \<noteq> b \<Longrightarrow> fst (swap_slots h p a b) ! j = h ! j"
       "length (fst (swap_slots h p a b)) = length h"
    using assms by (simp_all add: swap_slots_def)
  have "mset (h[a := h ! b, b := h ! a]) = mset h"
    using assms by (simp add: mset_swap)
  then show "set (fst (swap_slots h p a b)) = set h"
    by (metis fst_conv mset_eq_setD swap_slots_def)
qed

lemma swap_struct:
  assumes st: "heap_struct d h p s" and a: "1 \<le> a" "a \<le> nat s" and b: "1 \<le> b" "b \<le> nat s"
    and ab: "a \<noteq> b"
  shows "heap_struct d (fst (swap_slots h p a b)) (snd (swap_slots h p a b)) s"
    and "members (fst (swap_slots h p a b)) s = members h s"
proof -
  let ?h = "fst (swap_slots h p a b)" and ?p = "snd (swap_slots h p a b)"
  have la: "a < length h" and lb: "b < length h" using struct_slot(1)[OF st] a b by auto
  note N = swap_nth[OF la lb ab, where p = p]
  have va: "nat (h ! a) < length p" and vb: "nat (h ! b) < length p"
    using struct_slot(5)[OF st] a b by auto
  have ne: "nat (h ! a) \<noteq> nat (h ! b)" using struct_distinct(2)[OF st a b ab] .
  have slots: "0 \<le> ?h ! j \<and> ?p ! nat (?h ! j) = int j" if j: "1 \<le> j" "j \<le> nat s" for j
  proof -
    consider "j = a" | "j = b" | "j \<noteq> a" "j \<noteq> b" by blast
    then show ?thesis
    proof cases
      case 1
      then show ?thesis using N(1) struct_slot(2)[OF st b] va vb ne
        by (simp add: swap_slots_def)
    next
      case 2
      then show ?thesis using N(2) struct_slot(2)[OF st a] va vb ne
        by (simp add: swap_slots_def)
    next
      case 3
      have "nat (h ! j) \<noteq> nat (h ! a)" "nat (h ! j) \<noteq> nat (h ! b)"
        using struct_distinct(2)[OF st j a] struct_distinct(2)[OF st j b] 3 by auto
      then show ?thesis using N(3)[OF 3] struct_slot(2,6)[OF st j]
        by (simp add: swap_slots_def)
    qed
  qed
  show "heap_struct d ?h ?p s"
    using st slots N(4,5) by (simp add: heap_struct_iff swap_slots_def)
  show "members ?h s = members h s"
  proof (intro set_eqI iffI)
    fix v assume "v \<in> members ?h s"
    then obtain j where j: "1 \<le> j" "j \<le> nat s" "?h ! j = v" by (auto simp: members_iff)
    consider "j = a" | "j = b" | "j \<noteq> a" "j \<noteq> b" by blast
    then show "v \<in> members h s"
      using j N(1,2) N(3)[of j] a b by cases (auto simp: members_iff)
  next
    fix v assume "v \<in> members h s"
    then obtain j where j: "1 \<le> j" "j \<le> nat s" "h ! j = v" by (auto simp: members_iff)
    consider "j = a" | "j = b" | "j \<noteq> a" "j \<noteq> b" by blast
    then show "v \<in> members ?h s"
    proof cases
      case 1
      then show ?thesis using j N(2) b by (auto simp: members_iff)
    next
      case 2
      then show ?thesis using j N(1) a by (auto simp: members_iff)
    next
      case 3
      then show ?thesis using j N(3)[of j] by (auto simp: members_iff)
    qed
  qed
qed

lemma swap_key:
  assumes "a < length h" "b < length h" "a \<noteq> b"
  shows "key d (fst (swap_slots h p a b)) a = key d h b"
        "key d (fst (swap_slots h p a b)) b = key d h a"
        "j \<noteq> a \<Longrightarrow> j \<noteq> b \<Longrightarrow> key d (fst (swap_slots h p a b)) j = key d h j"
  using swap_nth[OF assms, where p = p] by (simp_all add: key_def)

subsection \<open>Sifting up\<close>

lemma trunc_half_nat: "trunc_half (int i) = int (i div 2)"
  by (simp add: trunc_half_def zdiv_int)

lemma SiftUp_body_eval:
  assumes st: "heap_struct d h p s" and i: "2 \<le> i" "i \<le> nat s"
  shows "SiftUp_body d (h, p, int i, int (i div 2)) =
     Some (if key d h i < key d h (i div 2)
           then (fst (swap_slots h p (i div 2) i), snd (swap_slots h p (i div 2) i),
                 int (i div 2), int (i div 2 div 2))
           else (h, p, int i, 0))"
proof -
  let ?a = "i div 2"
  have a: "1 \<le> ?a" "?a \<le> nat s" "?a \<noteq> i" using i by auto
  have i1: "1 \<le> i" using i by simp
  note A = struct_slot[OF st a(1,2)] and B = struct_slot[OF st i1 i(2)]
  have g1: "py_get h (int ?a) = Some (h ! ?a)" using A(1) by (rule py_get_nat)
  have g2: "py_get d (h ! ?a) = Some (key d h ?a)" using A(2,3) by (simp add: py_get_nonneg key_def)
  have g3: "py_get h (int i) = Some (h ! i)" using B(1) by (rule py_get_nat)
  have g4: "py_get d (h ! i) = Some (key d h i)" using B(2,3) by (simp add: py_get_nonneg key_def)
  let ?h1 = "h[?a := h ! i]" and ?h2 = "h[?a := h ! i, i := h ! ?a]"
  have s1: "py_set h (int ?a) (h ! i) = Some ?h1" using A(1) by (rule py_set_nat)
  have s2: "py_set ?h1 (int i) (h ! ?a) = Some ?h2" using B(1) by (simp add: py_set_nat)
  have g5: "py_get ?h2 (int i) = Some (h ! ?a)" using B(1) by (simp add: py_get_nat)
  have g6: "py_get ?h2 (int ?a) = Some (h ! i)" using A(1) a(3) by (simp add: py_get_nat)
  let ?p1 = "p[nat (h ! ?a) := int i]"
  have s3: "py_set p (h ! ?a) (int i) = Some ?p1" using A(2,5) by (simp add: py_set_nonneg)
  have s4: "py_set ?p1 (h ! i) (int ?a) = Some (?p1[nat (h ! i) := int ?a])"
    using B(2,5) by (simp add: py_set_nonneg)
  show ?thesis
    unfolding SiftUp_body_def
    by (simp add: g1 g2 g3 g4 s1 s2 g5 g6 s3 s4 trunc_half_nat swap_slots_def)
qed

definition up_order :: "real list \<Rightarrow> int list \<Rightarrow> int \<Rightarrow> nat \<Rightarrow> bool" where
  \<comment> \<open>the heap order holds except between slot \<open>i\<close> and its parent\<close>
  "up_order d h s i =
     ((\<forall>j. 2 \<le> j \<and> j \<le> nat s \<and> j \<noteq> i \<longrightarrow> key d h (j div 2) \<le> key d h j) \<and>
      (\<forall>j. 2 \<le> j \<and> j \<le> nat s \<and> j div 2 = i \<and> 2 \<le> i \<longrightarrow> key d h (i div 2 ) \<le> key d h j))"

lemma up_order_swap:
  assumes st: "heap_struct d h p s" and i: "2 \<le> i" "i \<le> nat s"
    and up: "up_order d h s i" and lt: "key d h i < key d h (i div 2)"
  shows "up_order d (fst (swap_slots h p (i div 2) i)) s (i div 2)"
proof -
  let ?a = "i div 2" and ?h = "fst (swap_slots h p (i div 2) i)"
  have a: "1 \<le> ?a" "?a \<le> nat s" "?a \<noteq> i" "?a < i" using i by auto
  have la: "?a < length h" and li: "i < length h"
    using struct_slot(1)[OF st a(1,2)] struct_slot(1)[OF st _ i(2)] i by auto
  note K = swap_key[OF la li a(3), where p = p and d = d]
  have ord: "key d h (j div 2) \<le> key d h j" if "2 \<le> j" "j \<le> nat s" "j \<noteq> i" for j
    using up that by (auto simp: up_order_def)
  have gp: "key d h ?a \<le> key d h j" if "2 \<le> j" "j \<le> nat s" "j div 2 = i" for j
    using up that i by (auto simp: up_order_def)
  have k': "key d ?h j = (if j = ?a then key d h i else if j = i then key d h ?a else key d h j)" for j
    using K(1,2) K(3)[of j] by auto
  have ne: "(i = i div 2) = False" "(i div 2 = i) = False" using i by auto
  show ?thesis unfolding up_order_def
  proof (intro conjI allI impI)
    fix j assume j: "2 \<le> j \<and> j \<le> nat s \<and> j \<noteq> ?a"
    show "key d ?h (j div 2) \<le> key d ?h j"
    proof (cases "j = i")
      case True
      then show ?thesis using lt a by (simp add: k')
    next
      case False
      have oj: "key d h (j div 2) \<le> key d h j" using ord j False by simp
      consider "j div 2 = i" | "j div 2 = ?a" | "j div 2 \<noteq> i" "j div 2 \<noteq> ?a" by blast
      then show ?thesis
      proof cases
        case 1
        then show ?thesis using gp[of j] j False by (simp add: k' ne)
      next
        case 2
        then show ?thesis using oj lt j False by (simp add: k')
      next
        case 3
        then show ?thesis using oj j False by (simp add: k')
      qed
    qed
  next
    fix j assume j: "2 \<le> j \<and> j \<le> nat s \<and> j div 2 = ?a \<and> 2 \<le> ?a"
    have pa: "key d h (?a div 2) \<le> key d h ?a" using ord[of ?a] j a by simp
    have n1: "?a div 2 \<noteq> ?a" "?a div 2 \<noteq> i" using j a by auto
    have "key d ?h (?a div 2) = key d h (?a div 2)" using n1 by (simp add: k')
    moreover have "key d h ?a \<le> key d ?h j"
    proof (cases "j = i")
      case True
      then show ?thesis using a by (simp add: k')
    next
      case False
      then have "key d h (j div 2) \<le> key d h j" using ord[of j] j by simp
      moreover have "(j = i div 2) = False" using j by auto
      ultimately show ?thesis using j False by (simp add: k')
    qed
    ultimately show "key d ?h (?a div 2) \<le> key d ?h j" using pa by simp
  qed
qed

lemma SiftUp_loop_heap:
  assumes "heap_struct d h p s" "1 \<le> i" "i \<le> nat s" "up_order d h s i"
  shows "\<exists>h' p'. SiftUp_loop d (h, p, int i, int (i div 2)) = Some (h', p') \<and>
           heap_struct d h' p' s \<and> heap_order d h' s \<and> members h' s = members h s"
  using assms
proof (induction i arbitrary: h p rule: less_induct)
  case (less i)
  show ?case
  proof (cases "i div 2 = 0")
    case True
    then have i1: "i = 1" using less.prems(2) by auto
    have "heap_order d h s" using less.prems(4) by (auto simp: heap_order_iff up_order_def i1)
    then show ?thesis using True less.prems(1) by simp
  next
    case False
    then have i2: "2 \<le> i" by auto
    note E = SiftUp_body_eval[OF less.prems(1) i2 less.prems(3)]
    show ?thesis
    proof (cases "key d h i < key d h (i div 2)")
      case lt: True
      let ?h = "fst (swap_slots h p (i div 2) i)" and ?p = "snd (swap_slots h p (i div 2) i)"
      have a: "1 \<le> i div 2" "i div 2 \<le> nat s" "i div 2 \<noteq> i" "i div 2 < i" using i2 less.prems(3) by auto
      have st': "heap_struct d ?h ?p s" and mem: "members ?h s = members h s"
        using swap_struct[OF less.prems(1) a(1,2) less.prems(2,3) a(3)] by auto
      have up': "up_order d ?h s (i div 2)"
        using up_order_swap[OF less.prems(1) i2 less.prems(3,4) lt] .
      from less.IH[OF a(4) st' a(1,2) up'] obtain h' p' where
        "SiftUp_loop d (?h, ?p, int (i div 2), int (i div 2 div 2)) = Some (h', p')"
        "heap_struct d h' p' s" "heap_order d h' s" "members h' s = members ?h s" by blast
      then show ?thesis using False E lt mem by simp
    next
      case ge: False
      have "heap_order d h s" unfolding heap_order_iff
      proof (intro allI impI)
        fix j assume j: "2 \<le> j \<and> j \<le> nat s"
        show "key d h (j div 2) \<le> key d h j"
          using less.prems(4) ge j by (cases "j = i") (auto simp: up_order_def)
      qed
      then show ?thesis using False E ge less.prems(1) by simp
    qed
  qed
qed

subsection \<open>Sifting down\<close>

definition smaller_child :: "real list \<Rightarrow> int list \<Rightarrow> int \<Rightarrow> nat \<Rightarrow> nat" where
  "smaller_child d h s i =
     (if 2 * i + 1 \<le> nat s \<and> key d h (2 * i + 1) < key d h (2 * i) then 2 * i + 1 else 2 * i)"

lemma smaller_child_props:
  assumes "1 \<le> i" "2 * i \<le> nat s"
  shows "1 \<le> smaller_child d h s i" "smaller_child d h s i \<le> nat s"
    "smaller_child d h s i \<noteq> i" "i < smaller_child d h s i"
    "smaller_child d h s i div 2 = i"
    "key d h (smaller_child d h s i) \<le> key d h (2 * i)"
    "2 * i + 1 \<le> nat s \<Longrightarrow> key d h (smaller_child d h s i) \<le> key d h (2 * i + 1)"
  using assms by (auto simp: smaller_child_def)

lemma SiftDown_body_eval:
  assumes st: "heap_struct d h p s" and room: "nat s + 1 < length h"
    and i: "1 \<le> i" "2 * i \<le> nat s"
  shows "SiftDown_body d s (h, p, int i, 2 * int i) =
     Some (if key d h (smaller_child d h s i) < key d h i
           then (fst (swap_slots h p (smaller_child d h s i) i),
                 snd (swap_slots h p (smaller_child d h s i) i),
                 int (smaller_child d h s i), 2 * int (smaller_child d h s i))
           else (h, p, int i, s + 1))"
proof -
  let ?c = "smaller_child d h s i"
  note C = smaller_child_props[OF i, where d = d and h = h]
  have s0: "0 \<le> s" using st by (simp add: heap_struct_iff)
  have i': "i \<le> nat s" and e1: "1 \<le> 2 * i" using i by auto
  note A = struct_slot[OF st C(1,2)] and B = struct_slot[OF st i(1) i'] and E = struct_slot[OF st e1 i(2)]
  have l1: "2 * i + 1 < length h" using i room by simp
  have g1: "py_get h (2 * int i + 1) = Some (h ! (2 * i + 1))"
    using py_get_nat[OF l1] by (simp add: add.commute)
  have "h ! (2 * i + 1) \<in> set h" using l1 by simp
  then have v1: "- int (length d) \<le> h ! (2 * i + 1)" "h ! (2 * i + 1) < int (length d)"
    using st by (auto simp: heap_struct_iff)
  obtain x1 where g2: "py_get d (h ! (2 * i + 1)) = Some x1"
    using py_get_valid[OF v1] by blast
  have x1: "x1 = key d h (2 * i + 1)" if "2 * i + 1 \<le> nat s"
  proof -
    have "1 \<le> 2 * i + 1" by simp
    note F = struct_slot[OF st this that]
    have "py_get d (h ! (2 * i + 1)) = Some (key d h (2 * i + 1))"
      using F(2,3) by (simp add: py_get_nonneg key_def)
    then show ?thesis using g2 by simp
  qed
  have g2': "py_get d (h ! Suc (2 * i)) = Some x1" using g2 by simp
  have g3: "py_get h (2 * int i) = Some (h ! (2 * i))" using py_get_nat[OF E(1)] by simp
  have g4: "py_get d (h ! (2 * i)) = Some (key d h (2 * i))"
    using E(2,3) by (simp add: py_get_nonneg key_def)
  have le: "(2 * int i + 1 \<le> s) = (2 * i + 1 \<le> nat s)" using s0 by auto
  have ci: "(if x1 < key d h (2 * i) \<and> 2 * int i + 1 \<le> s then 2 * int i + 1 else 2 * int i) = int ?c"
    using x1 by (auto simp: smaller_child_def le)
  have g5: "py_get h (int ?c) = Some (h ! ?c)" using A(1) by (rule py_get_nat)
  have g6: "py_get d (h ! ?c) = Some (key d h ?c)" using A(2,3) by (simp add: py_get_nonneg key_def)
  have g7: "py_get h (int i) = Some (h ! i)" using B(1) by (rule py_get_nat)
  have g8: "py_get d (h ! i) = Some (key d h i)" using B(2,3) by (simp add: py_get_nonneg key_def)
  let ?h1 = "h[?c := h ! i]" and ?h2 = "h[?c := h ! i, i := h ! ?c]"
  have s1: "py_set h (int ?c) (h ! i) = Some ?h1" using A(1) by (rule py_set_nat)
  have s2: "py_set ?h1 (int i) (h ! ?c) = Some ?h2" using B(1) by (simp add: py_set_nat)
  have g9: "py_get ?h2 (int i) = Some (h ! ?c)" using B(1) by (simp add: py_get_nat)
  have g10: "py_get ?h2 (int ?c) = Some (h ! i)" using A(1) C(3) by (simp add: py_get_nat)
  let ?p1 = "p[nat (h ! ?c) := int i]"
  have s3: "py_set p (h ! ?c) (int i) = Some ?p1" using A(2,5) by (simp add: py_set_nonneg)
  have s4: "py_set ?p1 (h ! i) (int ?c) = Some (?p1[nat (h ! i) := int ?c])"
    using B(2,5) by (simp add: py_set_nonneg)
  show ?thesis
    unfolding SiftDown_body_def
    by (simp add: g1 g2' g3 g4 ci Let_def g5 g6 g7 g8 s1 s2 g9 g10 s3 s4 swap_slots_def
        del: of_nat_mult of_nat_add)
qed

definition down_order :: "real list \<Rightarrow> int list \<Rightarrow> int \<Rightarrow> nat \<Rightarrow> bool" where
  \<comment> \<open>the heap order holds except between slot \<open>i\<close> and its children\<close>
  "down_order d h s i =
     ((\<forall>j. 2 \<le> j \<and> j \<le> nat s \<and> j div 2 \<noteq> i \<longrightarrow> key d h (j div 2) \<le> key d h j) \<and>
      (\<forall>j. 2 \<le> j \<and> j \<le> nat s \<and> j div 2 = i \<and> 2 \<le> i \<longrightarrow> key d h (i div 2) \<le> key d h j))"

lemma down_order_swap:
  assumes st: "heap_struct d h p s" and i: "1 \<le> i" "2 * i \<le> nat s"
    and down: "down_order d h s i"
    and lt: "key d h (smaller_child d h s i) < key d h i"
  shows "down_order d (fst (swap_slots h p (smaller_child d h s i) i)) s (smaller_child d h s i)"
proof -
  let ?c = "smaller_child d h s i"
  let ?h = "fst (swap_slots h p ?c i)"
  note C = smaller_child_props[OF i, where d = d and h = h]
  have i': "i \<le> nat s" using i by auto
  have lc: "?c < length h" and li: "i < length h"
    using struct_slot(1)[OF st C(1,2)] struct_slot(1)[OF st i(1) i'] by auto
  note K = swap_key[OF lc li C(3), where p = p and d = d]
  have k': "key d ?h j = (if j = ?c then key d h i else if j = i then key d h ?c else key d h j)" for j
    using K(1,2) K(3)[of j] by auto
  have ord: "key d h (j div 2) \<le> key d h j" if "2 \<le> j" "j \<le> nat s" "j div 2 \<noteq> i" for j
    using down that by (auto simp: down_order_def)
  have gp: "key d h (i div 2) \<le> key d h j" if "2 \<le> j" "j \<le> nat s" "j div 2 = i" "2 \<le> i" for j
    using down that by (auto simp: down_order_def)
  have child: "key d h ?c \<le> key d h j" if "j \<le> nat s" "j div 2 = i" for j
  proof -
    have "j = 2 * i \<or> j = 2 * i + 1" using that(2) by auto
    then show ?thesis using C(6,7) that(1) by auto
  qed
  have nc: "(?c = i) = False" "(i = ?c) = False" using C(3) by auto
  show ?thesis unfolding down_order_def
  proof (intro conjI allI impI)
    fix j assume j: "2 \<le> j \<and> j \<le> nat s \<and> j div 2 \<noteq> ?c"
    consider "j = ?c" | "j \<noteq> ?c" "j div 2 = i" | "j = i" | "j \<noteq> ?c" "j \<noteq> i" "j div 2 \<noteq> i"
      by blast
    then show "key d ?h (j div 2) \<le> key d ?h j"
    proof cases
      case 1
      then show ?thesis using C(5) lt by (simp add: k' nc)
    next
      case 2
      have "(j = i) = False" using 2(2) j by auto
      then show ?thesis using 2 child[of j] j by (simp add: k' nc)
    next
      case 3
      have n: "(i div 2 = i) = False" "(i div 2 = ?c) = False" using j 3 C(4) by auto
      have "key d h (i div 2) \<le> key d h ?c" using gp[of ?c] C j 3 by simp
      then show ?thesis using 3 by (simp add: k' nc n)
    next
      case 4
      then show ?thesis using ord[of j] j by (simp add: k')
    qed
  next
    fix j assume j: "2 \<le> j \<and> j \<le> nat s \<and> j div 2 = ?c \<and> 2 \<le> ?c"
    have n: "(j = ?c) = False" "(j = i) = False" using j C(4) by auto
    have "key d h ?c \<le> key d h j" using ord[of j] j C(3) by simp
    then show "key d ?h (?c div 2) \<le> key d ?h j" using C(5) by (simp add: k' nc n)
  qed
qed

lemma SiftDown_loop_heap:
  assumes "heap_struct d h p s" "nat s + 1 < length h" "1 \<le> i" "down_order d h s i"
  shows "\<exists>h' p'. SiftDown_loop d s (h, p, int i, 2 * int i) = Some (h', p') \<and>
           heap_struct d h' p' s \<and> heap_order d h' s \<and> members h' s = members h s \<and>
           length h' = length h"
  using assms
proof (induction "nat s - i" arbitrary: i h p rule: less_induct)
  case less
  have s0: "0 \<le> s" using less.prems(1) by (simp add: heap_struct_iff)
  have run: "(2 * int i \<le> s) = (2 * i \<le> nat s)" using s0 by auto
  show ?case
  proof (cases "2 * i \<le> nat s")
    case False
    have "heap_order d h s" unfolding heap_order_iff
    proof (intro allI impI)
      fix j assume j: "2 \<le> j \<and> j \<le> nat s"
      then have "j div 2 \<noteq> i" using False by auto
      then show "key d h (j div 2) \<le> key d h j" using less.prems(4) j by (auto simp: down_order_def)
    qed
    then show ?thesis using False less.prems(1) by (simp add: run)
  next
    case True
    let ?c = "smaller_child d h s i"
    note C = smaller_child_props[OF less.prems(3) True, where d = d and h = h]
    note E = SiftDown_body_eval[OF less.prems(1,2,3) True]
    have i': "i \<le> nat s" using True by auto
    show ?thesis
    proof (cases "key d h ?c < key d h i")
      case lt: True
      let ?h = "fst (swap_slots h p ?c i)" and ?p = "snd (swap_slots h p ?c i)"
      have st': "heap_struct d ?h ?p s" and mem: "members ?h s = members h s"
        using swap_struct[OF less.prems(1) C(1,2) less.prems(3) i' C(3)] by auto
      have len: "length ?h = length h" by (simp add: swap_slots_def)
      have down': "down_order d ?h s ?c"
        using down_order_swap[OF less.prems(1,3) True less.prems(4) lt] .
      have m: "nat s - ?c < nat s - i" using C(2,4) by simp
      have room': "nat s + 1 < length ?h" using less.prems(2) len by simp
      from less.hyps[OF m st' room' C(1) down'] obtain h' p' where
        "SiftDown_loop d s (?h, ?p, int ?c, 2 * int ?c) = Some (h', p')"
        "heap_struct d h' p' s" "heap_order d h' s" "members h' s = members ?h s"
        "length h' = length ?h" by blast
      then show ?thesis using True E lt mem len by (simp add: run)
    next
      case ge: False
      have "heap_order d h s" unfolding heap_order_iff
      proof (intro allI impI)
        fix j assume j: "2 \<le> j \<and> j \<le> nat s"
        show "key d h (j div 2) \<le> key d h j"
        proof (cases "j div 2 = i")
          case False
          then show ?thesis using less.prems(4) j by (auto simp: down_order_def)
        next
          case eq: True
          then have "j = 2 * i \<or> j = 2 * i + 1" by auto
          then have "key d h ?c \<le> key d h j" using C(6,7) j by auto
          then show ?thesis using ge eq by simp
        qed
      qed
      then show ?thesis using True E ge less.prems(1) by (simp add: run)
    qed
  qed
qed

lemma heap_order_root:
  assumes "heap_order d h s" "1 \<le> j" "j \<le> nat s"
  shows "key d h 1 \<le> key d h j"
  using assms(2,3)
proof (induction j rule: less_induct)
  case (less j)
  show ?case
  proof (cases "j = 1")
    case True
    then show ?thesis by simp
  next
    case False
    then have j2: "2 \<le> j" using less.prems by simp
    have "key d h (j div 2) \<le> key d h j" using assms(1) j2 less.prems by (simp add: heap_order_iff)
    moreover have "key d h 1 \<le> key d h (j div 2)"
      using less.IH[of "j div 2"] j2 less.prems by simp
    ultimately show ?thesis by simp
  qed
qed

subsection \<open>Push, decrease-key and pop\<close>

lemma PushHeap_heap:
  assumes inv: "heap_inv d h p s" and v: "0 \<le> v" "v < int (length d)"
    and fresh: "v \<notin> members h s" and room: "s + 1 < int (length h)"
  shows "\<exists>h' p'. PushHeap d h s p v = Some (s + 1, h', p') \<and> heap_inv d h' p' (s + 1) \<and>
           members h' (s + 1) = insert v (members h s)"
proof -
  have st: "heap_struct d h p s" and ord: "heap_order d h s" using inv by (auto simp: heap_inv_def)
  have s0: "0 \<le> s" and lp: "length p = length d" using st by (auto simp: heap_struct_iff)
  define n where "n = nat s + 1"
  have n: "int n = s + 1" "nat (s + 1) = n" "1 \<le> n" "n < length h" "nat s < n"
    using s0 room by (auto simp: n_def)
  let ?h = "h[n := v]" and ?p = "p[nat v := s + 1]"
  have e1: "py_set h (s + 1) v = Some ?h"
    using py_set_nonneg[of "s + 1" h v] s0 room n(2) by simp
  have e2: "py_set p v (s + 1) = Some ?p" using v lp by (simp add: py_set_nonneg)
  have old: "?h ! j = h ! j \<and> h ! j \<noteq> v \<and> 0 \<le> h ! j \<and> p ! nat (h ! j) = int j"
    if "1 \<le> j" "j \<le> nat s" for j
  proof -
    have "h ! j \<noteq> v" using fresh that by (auto simp: members_iff)
    moreover have "?h ! j = h ! j" using that n(5) by simp
    ultimately show ?thesis using struct_slot(2,6)[OF st that] by simp
  qed
  have new: "?h ! n = v" using n(4) by simp
  have st': "heap_struct d ?h ?p (s + 1)" unfolding heap_struct_iff
  proof (intro conjI ballI allI impI)
    show "0 \<le> s + 1" "s + 1 < int (length ?h)" "length ?p = length d"
      using s0 room lp by simp_all
  next
    fix x assume "x \<in> set ?h"
    then have "x = v \<or> x \<in> set h" using set_update_subset_insert[of h n v] by auto
    then show "- int (length d) \<le> x" "x < int (length d)"
      using v st by (auto simp: heap_struct_iff)
  next
    fix j assume j: "1 \<le> j \<and> j \<le> nat (s + 1)"
    show "0 \<le> ?h ! j" using j old[of j] new v n by (cases "j = n") auto
    show "?p ! nat (?h ! j) = int j"
    proof (cases "j = n")
      case True
      then show ?thesis using new v lp n by simp
    next
      case False
      then have jo: "1 \<le> j" "j \<le> nat s" using j n(2) by (auto simp: n_def)
      have "nat (h ! j) \<noteq> nat v" using old[OF jo] v by auto
      then show ?thesis using old[OF jo] by simp
    qed
  qed
  have k: "key d ?h j = key d h j" if "j \<noteq> n" for j using that by (simp add: key_def)
  have up: "up_order d ?h (s + 1) n" unfolding up_order_def n(2)
  proof (intro conjI allI impI)
    fix j assume j: "2 \<le> j \<and> j \<le> n \<and> j \<noteq> n"
    then have "j \<le> nat s" "j div 2 \<noteq> n" by (auto simp: n_def)
    then show "key d ?h (j div 2) \<le> key d ?h j" using ord j by (simp add: k heap_order_iff)
  next
    fix j assume j: "2 \<le> j \<and> j \<le> n \<and> j div 2 = n \<and> 2 \<le> n"
    then have False by auto
    then show "key d ?h (n div 2) \<le> key d ?h j" ..
  qed
  have "n \<le> nat (s + 1)" using n(2) by simp
  from SiftUp_loop_heap[OF st' n(3) this up] obtain h' p' where
    L: "SiftUp_loop d (?h, ?p, int n, int (n div 2)) = Some (h', p')"
    and R: "heap_struct d h' p' (s + 1)" "heap_order d h' (s + 1)"
      "members h' (s + 1) = members ?h (s + 1)" by blast
  have th: "trunc_half (s + 1) = int (n div 2)" using trunc_half_nat[of n] n(1) by simp
  have run: "PushHeap d h s p v = Some (s + 1, h', p')"
    using L by (simp add: PushHeap_def e1 e2 SiftUp_def th n(1))
  have "members ?h (s + 1) = insert v (members h s)"
  proof (rule set_eqI)
    fix x
    show "x \<in> members ?h (s + 1) \<longleftrightarrow> x \<in> insert v (members h s)"
    proof
      assume "x \<in> members ?h (s + 1)"
      then obtain j where j: "1 \<le> j" "j \<le> n" "?h ! j = x" by (auto simp: members_iff n(2))
      show "x \<in> insert v (members h s)"
      proof (cases "j = n")
        case True
        then show ?thesis using j new by simp
      next
        case False
        then have jo: "1 \<le> j" "j \<le> nat s" using j by (auto simp: n_def)
        then show ?thesis using old[OF jo] j(3) by (auto simp: members_iff)
      qed
    next
      assume "x \<in> insert v (members h s)"
      then consider "x = v" | j where "1 \<le> j" "j \<le> nat s" "h ! j = x" by (auto simp: members_iff)
      then show "x \<in> members ?h (s + 1)"
      proof cases
        case 1
        then show ?thesis using new n(3) by (auto simp: members_iff n(2))
      next
        case 2
        then have "?h ! j = x" "j \<le> n" using old[of j] by (auto simp: n_def)
        then show ?thesis using 2(1) by (auto simp: members_iff n(2))
      qed
    qed
  qed
  then show ?thesis using run R by (auto simp: heap_inv_def)
qed

lemma decrease_key_heap:
  assumes inv: "heap_inv d h p s" and v: "v \<in> members h s" and x: "x \<le> d ! nat v"
  shows "\<exists>h' p'. SiftUp (d[nat v := x]) h s p (p ! nat v) = Some (h', p') \<and>
           heap_inv (d[nat v := x]) h' p' s \<and> members h' s = members h s"
proof -
  let ?d = "d[nat v := x]"
  have st: "heap_struct d h p s" and ord: "heap_order d h s" using inv by (auto simp: heap_inv_def)
  from v obtain i where i: "1 \<le> i" "i \<le> nat s" "h ! i = v" by (auto simp: members_iff)
  note I = struct_slot[OF st i(1,2)]
  have pi: "p ! nat v = int i" using I(6) i(3) by simp
  have st': "heap_struct ?d h p s" using st by (simp add: heap_struct_iff)
  have ki: "key ?d h i = x" "x \<le> key d h i" using I(4) i(3) x by (simp_all add: key_def)
  have k: "key ?d h j = key d h j" if "1 \<le> j" "j \<le> nat s" "j \<noteq> i" for j
    using struct_distinct(2)[OF st that(1,2) i(1,2) that(3)] i(3) by (simp add: key_def)
  have kle: "key ?d h j \<le> key d h j" if "1 \<le> j" "j \<le> nat s" for j
    using k[OF that] ki by (cases "j = i") auto
  have up: "up_order ?d h s i" unfolding up_order_def
  proof (intro conjI allI impI)
    fix j assume j: "2 \<le> j \<and> j \<le> nat s \<and> j \<noteq> i"
    have "key ?d h (j div 2) \<le> key d h (j div 2)" using kle[of "j div 2"] j by auto
    also have "\<dots> \<le> key d h j" using ord j by (simp add: heap_order_iff)
    also have "\<dots> = key ?d h j" using k[of j] j by simp
    finally show "key ?d h (j div 2) \<le> key ?d h j" .
  next
    fix j assume j: "2 \<le> j \<and> j \<le> nat s \<and> j div 2 = i \<and> 2 \<le> i"
    have ne: "j \<noteq> i" "i div 2 \<noteq> i" using j by auto
    have i2: "2 \<le> i" using j by simp
    have a: "1 \<le> i div 2" "i div 2 \<le> nat s" using i2 i(2) by auto
    have "key ?d h (i div 2) = key d h (i div 2)" using k[OF a ne(2)] .
    also have "\<dots> \<le> key d h i" using ord j i by (simp add: heap_order_iff)
    also have "\<dots> \<le> key d h j" using ord j by (auto simp: heap_order_iff)
    also have "\<dots> = key ?d h j" using k[of j] j ne by simp
    finally show "key ?d h (i div 2) \<le> key ?d h j" .
  qed
  from SiftUp_loop_heap[OF st' i(1,2) up] show ?thesis
    by (simp add: SiftUp_def pi trunc_half_nat heap_inv_def)
qed

lemma PopHeap_heap:
  assumes inv: "heap_inv d h p s" and s1: "1 \<le> s"
  shows "\<exists>h' p'. PopHeap d h s p = Some (h ! 1, s - 1, h', p') \<and> heap_inv d h' p' (s - 1) \<and>
           members h' (s - 1) = members h s - {h ! 1} \<and>
           list_all (\<lambda>j. key d h 1 \<le> key d h j) [1..<Suc (nat s)]"
proof -
  have st: "heap_struct d h p s" and ord: "heap_order d h s" using inv by (auto simp: heap_inv_def)
  define n where "n = nat s"
  have n: "int n = s" "1 \<le> n" "n \<le> nat s" "nat (s - 1) = n - 1" using s1 by (auto simp: n_def)
  have one: "(1::nat) \<le> 1" "1 \<le> nat s" using s1 by auto
  note T = struct_slot[OF st one] and N = struct_slot[OF st n(2,3)]
  let ?h = "h[1 := h ! n]" and ?p = "p[nat (h ! n) := 1]"
  have e1: "py_get h 1 = Some (h ! 1)" using py_get_nat[OF T(1)] by simp
  have e2: "py_get h s = Some (h ! n)" using py_get_nat[OF N(1)] n(1) by simp
  have e3: "py_set h 1 (h ! n) = Some ?h" using py_set_nat[OF T(1)] by simp
  have e4: "py_get ?h 1 = Some (h ! n)" using py_get_nat[of 1 ?h] T(1) by simp
  have e5: "py_set p (h ! n) 1 = Some ?p" using N(2,5) by (simp add: py_set_nonneg)
  have old: "?h ! j = h ! j \<and> 0 \<le> h ! j \<and> ?p ! nat (h ! j) = int j"
    if "2 \<le> j" "j \<le> n - 1" for j
  proof -
    have j: "1 \<le> j" "j \<le> nat s" "j \<noteq> n" using that n by auto
    have "nat (h ! j) \<noteq> nat (h ! n)" using struct_distinct(2)[OF st j(1,2) n(2,3) j(3)] .
    then show ?thesis using struct_slot(2,6)[OF st j(1,2)] that by simp
  qed
  have st': "heap_struct d ?h ?p (s - 1)" unfolding heap_struct_iff
  proof (intro conjI ballI allI impI)
    show "0 \<le> s - 1" "s - 1 < int (length ?h)" "length ?p = length d"
      using s1 st by (simp_all add: heap_struct_iff)
  next
    fix x assume "x \<in> set ?h"
    then have "x = h ! n \<or> x \<in> set h" using set_update_subset_insert[of h 1 "h ! n"] by auto
    moreover have "h ! n \<in> set h" using N(1) by simp
    ultimately show "- int (length d) \<le> x" "x < int (length d)"
      using st by (auto simp: heap_struct_iff)
  next
    fix j assume j: "1 \<le> j \<and> j \<le> nat (s - 1)"
    show "0 \<le> ?h ! j" using j old[of j] N(2) T(1) n(4) by (cases "j = 1") auto
    show "?p ! nat (?h ! j) = int j" using j old[of j] N(5) T(1) n(4) by (cases "j = 1") auto
  qed
  have k: "key d ?h j = key d h j" if "j \<noteq> 1" for j using that by (simp add: key_def)
  have down: "down_order d ?h (s - 1) 1" unfolding down_order_def n(4)
  proof (intro conjI allI impI)
    fix j assume j: "2 \<le> j \<and> j \<le> n - 1 \<and> j div 2 \<noteq> 1"
    then have "j \<le> nat s" "j \<noteq> 1" using n by auto
    then have "key d h (j div 2) \<le> key d h j" "key d ?h j = key d h j"
      "key d ?h (j div 2) = key d h (j div 2)"
      using ord j k[of j] k[of "j div 2"] by (auto simp: heap_order_iff)
    then show "key d ?h (j div 2) \<le> key d ?h j" by (simp only:)
  next
    fix j assume "2 \<le> j \<and> j \<le> n - 1 \<and> j div 2 = 1 \<and> 2 \<le> (1::nat)"
    then have False by simp
    then show "key d ?h (1 div 2) \<le> key d ?h j" ..
  qed
  have room: "nat (s - 1) + 1 < length ?h" using N(1) n by simp
  from SiftDown_loop_heap[OF st' room _ down] obtain h' p' where
    L: "SiftDown_loop d (s - 1) (?h, ?p, int 1, 2 * int 1) = Some (h', p')"
    and R: "heap_struct d h' p' (s - 1)" "heap_order d h' (s - 1)"
      "members h' (s - 1) = members ?h (s - 1)" by auto
  have L': "SiftDown_loop d (s - 1) (?h, ?p, 1, 2 * 1) = Some (h', p')"
    using L by (simp del: SiftDown_loop.simps)
  have run: "PopHeap d h s p = Some (h ! 1, s - 1, h', p')"
    unfolding PopHeap_def SiftDown_def
    by (simp add: e1 e2 e3[unfolded One_nat_def] e4[unfolded One_nat_def] e5
        L'[unfolded One_nat_def, simplified mult_1_right] del: SiftDown_loop.simps)
  have mem: "members ?h (s - 1) = members h s - {h ! 1}"
  proof (rule set_eqI)
    fix x
    show "x \<in> members ?h (s - 1) \<longleftrightarrow> x \<in> members h s - {h ! 1}"
    proof
      assume "x \<in> members ?h (s - 1)"
      then obtain j where j: "1 \<le> j" "j \<le> n - 1" "?h ! j = x" by (auto simp: members_iff n(4))
      show "x \<in> members h s - {h ! 1}"
      proof (cases "j = 1")
        case True
        then have "x = h ! n" "n \<noteq> 1" using j T(1) by auto
        then show ?thesis using struct_distinct(1)[OF st n(2,3) one] n(2,3)
          by (auto simp: members_iff)
      next
        case False
        then have x: "x = h ! j" and jj: "1 \<le> j" "j \<le> nat s" "j \<noteq> 1" using j n by auto
        show ?thesis using struct_distinct(1)[OF st jj(1,2) one jj(3)] jj x
          by (auto simp: members_iff)
      qed
    next
      assume "x \<in> members h s - {h ! 1}"
      then obtain j where j: "1 \<le> j" "j \<le> nat s" "h ! j = x" "j \<noteq> 1" by (auto simp: members_iff)
      show "x \<in> members ?h (s - 1)"
      proof (cases "j = n")
        case True
        then have "?h ! 1 = x" "1 \<le> n - 1" using j T(1) by auto
        then show ?thesis unfolding members_iff n(4) by blast
      next
        case False
        then have "?h ! j = x" "j \<le> n - 1" using j by (auto simp: n_def)
        then show ?thesis unfolding members_iff n(4) using j(1) by blast
      qed
    qed
  qed
  have "list_all (\<lambda>j. key d h 1 \<le> key d h j) [1..<Suc (nat s)]"
    using heap_order_root[OF ord] by (auto simp: list_all_iff)
  then show ?thesis using run R mem by (auto simp: heap_inv_def)
qed

lemma empty_heap:
  assumes "0 < length d"
  shows "heap_inv d (replicate (length d + 1) (- 1)) (replicate (length d) (- 1)) 0"
proof -
  have "Suc 0 \<le> length d" using assms by (cases d) auto
  then show ?thesis by (simp add: heap_inv_def heap_struct_def heap_order_def list_all_iff)
qed

lemma PopHeap_minimum:
  assumes inv: "heap_inv d h p s" and s1: "1 \<le> s"
  shows "h ! 1 \<in> members h s" "\<forall>v \<in> members h s. d ! nat (h ! 1) \<le> d ! nat v"
proof -
  show "h ! 1 \<in> members h s" using s1 by (auto simp: members_iff)
  have ord: "heap_order d h s" using inv by (simp add: heap_inv_def)
  show "\<forall>v \<in> members h s. d ! nat (h ! 1) \<le> d ! nat v"
  proof
    fix v assume "v \<in> members h s"
    then obtain j where j: "1 \<le> j" "j \<le> nat s" "h ! j = v" by (auto simp: members_iff)
    show "d ! nat (h ! 1) \<le> d ! nat v" using heap_order_root[OF ord j(1,2)] j(3) by (simp add: key_def)
  qed
qed

lemma PopHeap_twice:
  assumes inv: "heap_inv d h p s" and s2: "2 \<le> s"
  shows "\<exists>v1 h1 p1 v2 h2 p2. PopHeap d h s p = Some (v1, s - 1, h1, p1) \<and>
           PopHeap d h1 (s - 1) p1 = Some (v2, s - 2, h2, p2) \<and> d ! nat v1 \<le> d ! nat v2"
proof -
  have s1: "1 \<le> s" using s2 by simp
  from PopHeap_heap[OF inv s1] obtain h1 p1 where
    1: "PopHeap d h s p = Some (h ! 1, s - 1, h1, p1)" "heap_inv d h1 p1 (s - 1)"
       "members h1 (s - 1) = members h s - {h ! 1}" by blast
  have s1': "1 \<le> s - 1" using s2 by simp
  from PopHeap_heap[OF 1(2) s1'] obtain h2 p2 where
    2: "PopHeap d h1 (s - 1) p1 = Some (h1 ! 1, s - 1 - 1, h2, p2)" by blast
  have "h1 ! 1 \<in> members h s" using PopHeap_minimum(1)[OF 1(2) s1'] 1(3) by simp
  then have "d ! nat (h ! 1) \<le> d ! nat (h1 ! 1)" using PopHeap_minimum(2)[OF inv s1] by blast
  moreover have "s - 1 - 1 = s - 2" by simp
  ultimately show ?thesis using 1(1) 2 by (simp only:) blast
qed

text \<open>
  Claim C5 as stated fails: the keys of successive pops need not be non-decreasing when a
  push comes in between.  From the empty heap over the keys \<open>d = (5,3)\<close>: push vertex 0, pop,
  push vertex 1, pop returns vertex 0 with key 5 and then vertex 1 with key 3.
\<close>

theorem pops_decrease_across_push:
  "do {
     (s, h, p) \<leftarrow> PushHeap [5, 3] [- 1, - 1, - 1] 0 [- 1, - 1] 0;
     (i1, s, h, p) \<leftarrow> PopHeap [5, 3] h s p;
     (s, h, p) \<leftarrow> PushHeap [5, 3] h s p 1;
     (i2, s, h, p) \<leftarrow> PopHeap [5, 3] h s p;
     Some (i1, [5, 3::real] ! nat i1, i2, [5, 3::real] ! nat i2)
   } = Some (0, 5, 1, 3)"
  by code_simp

text \<open>
  Claim C5, amended.  The empty heap of \<^verbatim>\<open>nearestneighbor\<close> satisfies the invariants
  \<open>d[h[j]] \<ge> d[h[j/2]]\<close> for every occupied slot \<open>j > 1\<close> and \<open>p[h[j]] = j\<close> for every occupied
  slot \<open>j\<close>, and each operation returns and preserves them: \<^verbatim>\<open>PushHeap\<close> of a vertex that is not
  in the heap when a slot is free, decrease-key (a smaller value assigned to \<open>d[w]\<close> followed
  by \<^verbatim>\<open>SiftUp(d,h,s,p,p[w])\<close>) of a vertex in the heap, and \<^verbatim>\<open>PopHeap\<close> of a heap that is not
  empty.  \<^verbatim>\<open>PopHeap\<close> returns a vertex whose key is the least of the heap at that moment, so
  two pops with no push and no decrease-key between them return non-decreasing keys.
\<close>

theorem heap_operations_preserve_invariants:
  "(0 < length d \<longrightarrow>
      heap_inv d (replicate (length d + 1) (- 1)) (replicate (length d) (- 1)) 0) \<and>
   (heap_inv d h p s \<and> 0 \<le> v \<and> v < int (length d) \<and> v \<notin> members h s \<and> s + 1 < int (length h) \<longrightarrow>
      (\<exists>h' p'. PushHeap d h s p v = Some (s + 1, h', p') \<and> heap_inv d h' p' (s + 1) \<and>
         members h' (s + 1) = insert v (members h s))) \<and>
   (heap_inv d h p s \<and> w \<in> members h s \<and> x \<le> d ! nat w \<longrightarrow>
      (\<exists>h' p'. SiftUp (d[nat w := x]) h s p (p ! nat w) = Some (h', p') \<and>
         heap_inv (d[nat w := x]) h' p' s \<and> members h' s = members h s)) \<and>
   (heap_inv d h p s \<and> 1 \<le> s \<longrightarrow>
      (\<exists>h' p'. PopHeap d h s p = Some (h ! 1, s - 1, h', p') \<and> heap_inv d h' p' (s - 1) \<and>
         members h' (s - 1) = members h s - {h ! 1} \<and> h ! 1 \<in> members h s \<and>
         (\<forall>u \<in> members h s. d ! nat (h ! 1) \<le> d ! nat u))) \<and>
   (heap_inv d h p s \<and> 2 \<le> s \<longrightarrow>
      (\<exists>v1 h1 p1 v2 h2 p2. PopHeap d h s p = Some (v1, s - 1, h1, p1) \<and>
         PopHeap d h1 (s - 1) p1 = Some (v2, s - 2, h2, p2) \<and> d ! nat v1 \<le> d ! nat v2))"
proof (intro conjI impI)
  assume "0 < length d"
  then show "heap_inv d (replicate (length d + 1) (- 1)) (replicate (length d) (- 1)) 0"
    by (rule empty_heap)
next
  assume "heap_inv d h p s \<and> 0 \<le> v \<and> v < int (length d) \<and> v \<notin> members h s \<and> s + 1 < int (length h)"
  then show "\<exists>h' p'. PushHeap d h s p v = Some (s + 1, h', p') \<and> heap_inv d h' p' (s + 1) \<and>
         members h' (s + 1) = insert v (members h s)"
    using PushHeap_heap[of d h p s v] by blast
next
  assume "heap_inv d h p s \<and> w \<in> members h s \<and> x \<le> d ! nat w"
  then show "\<exists>h' p'. SiftUp (d[nat w := x]) h s p (p ! nat w) = Some (h', p') \<and>
         heap_inv (d[nat w := x]) h' p' s \<and> members h' s = members h s"
    using decrease_key_heap[of d h p s w x] by blast
next
  assume a: "heap_inv d h p s \<and> 1 \<le> s"
  then obtain h' p' where "PopHeap d h s p = Some (h ! 1, s - 1, h', p')" "heap_inv d h' p' (s - 1)"
    "members h' (s - 1) = members h s - {h ! 1}"
    using PopHeap_heap[of d h p s] by blast
  then show "\<exists>h' p'. PopHeap d h s p = Some (h ! 1, s - 1, h', p') \<and> heap_inv d h' p' (s - 1) \<and>
         members h' (s - 1) = members h s - {h ! 1} \<and> h ! 1 \<in> members h s \<and>
         (\<forall>u \<in> members h s. d ! nat (h ! 1) \<le> d ! nat u)"
    using PopHeap_minimum[of d h p s] a by blast
next
  assume "heap_inv d h p s \<and> 2 \<le> s"
  then show "\<exists>v1 h1 p1 v2 h2 p2. PopHeap d h s p = Some (v1, s - 1, h1, p1) \<and>
         PopHeap d h1 (s - 1) p1 = Some (v2, s - 2, h2, p2) \<and> d ! nat v1 \<le> d ! nat v2"
    using PopHeap_twice[of d h p s] by blast
qed

theorem heap_operations_preserve_invariants_witness:
  "0 < length [5, 3, 7::real] \<and>
   heap_inv [5, 3, 7] [- 1, 1, 0, - 1] [2, 1, - 1] 2 \<and>
   (0::int) \<le> 2 \<and> 2 < int (length [5, 3, 7::real]) \<and> 2 \<notin> members [- 1, 1, 0, - 1] 2 \<and>
   2 + 1 < int (length [- 1, 1, 0, - 1::int]) \<and>
   0 \<in> members [- 1, 1, 0, - 1] 2 \<and> (1::real) \<le> [5, 3, 7] ! nat 0 \<and> (1::int) \<le> 2 \<and> (2::int) \<le> 2 \<and>
   heap_inv [5, 3, 7] (replicate (length [5, 3, 7::real] + 1) (- 1)) (replicate (length [5, 3, 7::real]) (- 1)) 0 \<and>
   (\<exists>h' p'. PushHeap [5, 3, 7] [- 1, 1, 0, - 1] 2 [2, 1, - 1] 2 = Some (2 + 1, h', p') \<and>
      heap_inv [5, 3, 7] h' p' (2 + 1) \<and>
      members h' (2 + 1) = insert 2 (members [- 1, 1, 0, - 1] 2)) \<and>
   (\<exists>h' p'. SiftUp ([5, 3, 7][nat 0 := 1]) [- 1, 1, 0, - 1] 2 [2, 1, - 1] ([2, 1, - 1] ! nat 0) = Some (h', p') \<and>
      heap_inv ([5, 3, 7][nat 0 := 1]) h' p' 2 \<and> members h' 2 = members [- 1, 1, 0, - 1] 2) \<and>
   (\<exists>h' p'. PopHeap [5, 3, 7] [- 1, 1, 0, - 1] 2 [2, 1, - 1] = Some ([- 1, 1, 0, - 1] ! 1, 2 - 1, h', p') \<and>
      heap_inv [5, 3, 7] h' p' (2 - 1) \<and>
      members h' (2 - 1) = members [- 1, 1, 0, - 1] 2 - {[- 1, 1, 0, - 1] ! 1} \<and>
      [- 1, 1, 0, - 1] ! 1 \<in> members [- 1, 1, 0, - 1] 2 \<and>
      (\<forall>u \<in> members [- 1, 1, 0, - 1] 2. [5, 3, 7::real] ! nat ([- 1, 1, 0, - 1] ! 1) \<le> [5, 3, 7] ! nat u)) \<and>
   (\<exists>v1 h1 p1 v2 h2 p2. PopHeap [5, 3, 7] [- 1, 1, 0, - 1] 2 [2, 1, - 1] = Some (v1, 2 - 1, h1, p1) \<and>
      PopHeap [5, 3, 7] h1 (2 - 1) p1 = Some (v2, 2 - 2, h2, p2) \<and> [5, 3, 7::real] ! nat v1 \<le> [5, 3, 7] ! nat v2)"
proof -
  have inv: "heap_inv [5, 3, 7] [- 1, 1, 0, - 1] [2, 1, - 1] 2" by code_simp
  have fresh: "(2::int) \<notin> members [- 1, 1, 0, - 1] 2" by code_simp
  have mem: "(0::int) \<in> members [- 1, 1, 0, - 1] 2" by code_simp
  have rest: "0 < length [5, 3, 7::real]" "(0::int) \<le> 2" "2 < int (length [5, 3, 7::real])"
    "2 + 1 < int (length [- 1, 1, 0, - 1::int])" "(1::real) \<le> [5, 3, 7] ! nat 0" "(1::int) \<le> 2" "(2::int) \<le> 2"
    by simp_all
  note T = heap_operations_preserve_invariants[of "[5, 3, 7]" "[- 1, 1, 0, - 1]" "[2, 1, - 1]" 2 2 0 1]
  from T inv fresh mem rest show ?thesis by (simp only: simp_thms)
qed

section \<open>Nearest neighbour classifier\<close>

text \<open>
  \<^verbatim>\<open>nearestneighbor(W,I,g)\<close>.  \<^verbatim>\<open>import cmodules.cgraphpy\<close> succeeds or not: the module is an
  optional argument.  Its \<^verbatim>\<open>dijkstra\<close> changes \<open>d\<close> and \<open>l\<close> in place and may raise, which the
  bare \<^verbatim>\<open>except\<close> catches: it returns the two arrays and whether it ended normally.
  For arbitrary contents of the arrays it is not clear that the main loop ends, so it is
  a partial function; \<open>None\<close> is a run that raises or does not end.
\<close>

record dijkstra_state =
  st_d :: "real list"
  st_l :: "int list"
  st_h :: "int list"
  st_p :: "int list"
  st_A :: "bool list"
  st_V :: "bool list"
  st_s :: int

definition py_slice :: "'a list \<Rightarrow> int \<Rightarrow> int \<Rightarrow> 'a list" where
  \<comment> \<open>\<^verbatim>\<open>xs[a:b]\<close>: negative bounds count from the end, bounds beyond the ends are clipped\<close>
  "py_slice xs a b =
     (let n = int (length xs);
          a' = (if a < 0 then max 0 (a + n) else min a n);
          b' = (if b < 0 then max 0 (b + n) else min b n)
      in take (nat (b' - a')) (drop (nat a') xs))"

definition column_starts :: "int list \<Rightarrow> int list" where
  \<comment> \<open>the array \<open>K\<close>: zero, the positions after which \<open>WJ\<close> changes, and the length of \<open>WJ\<close>\<close>
  "column_starts WJ =
     0 # [int t + 1. t \<leftarrow> [0..<length WJ - 1], WJ ! (t + 1) - WJ ! t \<noteq> 0] @ [int (length WJ)]"

definition seed :: "dijkstra_state \<Rightarrow> int \<Rightarrow> dijkstra_state option" where
  \<comment> \<open>one pass of the loop that builds the heap of the labelled vertices\<close>
  "seed st v = do {
     (s, h, p) \<leftarrow> PushHeap (st_d st) (st_h st) (st_s st) (st_p st) v;
     d \<leftarrow> py_set (st_d st) v 0;
     A \<leftarrow> py_set (st_A st) v True;
     l \<leftarrow> py_set (st_l st) v v;
     Some (st\<lparr>st_s := s, st_h := h, st_p := p, st_d := d, st_A := A, st_l := l\<rparr>)
   }"

fun seed_all :: "dijkstra_state \<Rightarrow> int list \<Rightarrow> dijkstra_state option" where
  "seed_all st [] = Some st"
| "seed_all st (v # vs) = (case seed st v of None \<Rightarrow> None | Some st' \<Rightarrow> seed_all st' vs)"

definition relax :: "real list \<Rightarrow> int \<Rightarrow> dijkstra_state \<Rightarrow> int \<Rightarrow> dijkstra_state option" where
  \<comment> \<open>the body of \<^verbatim>\<open>for j in WI[K[i]:K[i+1]]\<close>\<close>
  "relax WV i st j =
     (if j \<noteq> i then do {
        vj \<leftarrow> py_get (st_V st) j;
        if vj = False then do {
          aj \<leftarrow> py_get (st_A st) j;
          if aj then do {
            \<comment> \<open>\<open>j\<close> is already active\<close>
            di \<leftarrow> py_get (st_d st) i;
            w \<leftarrow> py_get WV j;
            let tmp_dist = di + w;
            dj \<leftarrow> py_get (st_d st) j;
            if tmp_dist < dj then do {
              d \<leftarrow> py_set (st_d st) j tmp_dist;
              pj \<leftarrow> py_get (st_p st) j;
              (h, p) \<leftarrow> SiftUp d (st_h st) (st_s st) (st_p st) pj;
              li \<leftarrow> py_get (st_l st) i;
              l \<leftarrow> py_set (st_l st) j li;
              Some (st\<lparr>st_d := d, st_h := h, st_p := p, st_l := l\<rparr>)
            } else Some st
          } else do {
            \<comment> \<open>\<open>j\<close> is not active: add to heap\<close>
            (s, h, p) \<leftarrow> PushHeap (st_d st) (st_h st) (st_s st) (st_p st) j;
            di \<leftarrow> py_get (st_d st) i;
            w \<leftarrow> py_get WV j;
            d \<leftarrow> py_set (st_d st) j (di + w);
            A \<leftarrow> py_set (st_A st) j True;
            li \<leftarrow> py_get (st_l st) i;
            l \<leftarrow> py_set (st_l st) j li;
            Some (st\<lparr>st_s := s, st_h := h, st_p := p, st_d := d, st_A := A, st_l := l\<rparr>)
          }
        } else Some st
      } else Some st)"

fun relax_all :: "real list \<Rightarrow> int \<Rightarrow> dijkstra_state \<Rightarrow> int list \<Rightarrow> dijkstra_state option" where
  "relax_all WV i st [] = Some st"
| "relax_all WV i st (j # js) =
     (case relax WV i st j of None \<Rightarrow> None | Some st' \<Rightarrow> relax_all WV i st' js)"

definition settle :: "int list \<Rightarrow> int list \<Rightarrow> real list \<Rightarrow> dijkstra_state \<Rightarrow> dijkstra_state option" where
  \<comment> \<open>one pass of \<^verbatim>\<open>while s > 0\<close>\<close>
  "settle WI K WV st = do {
     (i, s, h, p) \<leftarrow> PopHeap (st_d st) (st_h st) (st_s st) (st_p st);
     \<comment> \<open>finalize this point\<close>
     V \<leftarrow> py_set (st_V st) i True;
     A \<leftarrow> py_set (st_A st) i False;
     \<comment> \<open>update neighbors\<close>
     a \<leftarrow> py_get K i;
     b \<leftarrow> py_get K (i + 1);
     relax_all WV i (st\<lparr>st_s := s, st_h := h, st_p := p, st_V := V, st_A := A\<rparr>) (py_slice WI a b)
   }"

partial_function (option) dijkstra_loop ::
  "int list \<Rightarrow> int list \<Rightarrow> real list \<Rightarrow> dijkstra_state \<Rightarrow> dijkstra_state option" where
  "dijkstra_loop WI K WV st =
     (if st_s st > 0
      then (case settle WI K WV st of None \<Rightarrow> None | Some st' \<Rightarrow> dijkstra_loop WI K WV st')
      else Some st)"

declare dijkstra_loop.simps [code]

definition dijkstra_python ::
  "real list \<Rightarrow> int list \<Rightarrow> int list \<Rightarrow> int list \<Rightarrow> real list \<Rightarrow> int list \<Rightarrow> nat \<Rightarrow> (real list \<times> int list) option" where
  \<comment> \<open>the \<^verbatim>\<open>except\<close> branch: the Python version of Dijkstra's algorithm\<close>
  "dijkstra_python d l WI K WV I n = do {
     let st = \<lparr>st_d = d, st_l = l, st_h = replicate (n + 1) (- 1), st_p = replicate n (- 1),
                st_A = replicate n False, st_V = replicate n False, st_s = 0\<rparr>;
     st \<leftarrow> seed_all st I;
     st \<leftarrow> dijkstra_loop WI K WV st;
     Some (st_d st, st_l st)
   }"

record cgraphpy =
  dijkstra :: "real list \<Rightarrow> int list \<Rightarrow> int list \<Rightarrow> int list \<Rightarrow> real list \<Rightarrow> int list \<Rightarrow> real
                \<Rightarrow> (real list \<times> int list) \<times> bool"
  volume_mbo :: "int list \<Rightarrow> int list \<Rightarrow> int list \<Rightarrow> real list \<Rightarrow> int list \<Rightarrow> int list \<Rightarrow> int list
                \<Rightarrow> nat \<Rightarrow> real \<Rightarrow> real \<Rightarrow> int list option"

definition nearestneighbor :: "cgraphpy option \<Rightarrow> mat \<Rightarrow> int list \<Rightarrow> real list \<Rightarrow> mat option" where
  "nearestneighbor cgp W I g = do {
     let n = shape0 W;
     let d = replicate n 10000000000;
     let l = replicate n (- 1);
     let (WI, WJ, WV) = sparse_find W;
     let K = column_starts WJ;
     (d, l) \<leftarrow> (case cgp of
         Some c \<Rightarrow>
           (case dijkstra c d l WI K WV I 1 of
              ((d', l'), True) \<Rightarrow> Some (d', l')
            | ((d', l'), False) \<Rightarrow> dijkstra_python d' l' WI K WV I n)
       | None \<Rightarrow> dijkstra_python d l WI K WV I n);
     \<comment> \<open>set labels based on nearest neighbor\<close>
     u \<leftarrow> np_put (replicate n 0) I g;
     ul \<leftarrow> np_take u l;
     (X, _, _) \<leftarrow> LabelsToVec ul;
     Some X
   }"

definition path5 :: mat where
  \<comment> \<open>the path on five vertices with unit weights\<close>
  "path5 = [[0, 1, 0, 0, 0], [1, 0, 1, 0, 0], [0, 1, 0, 1, 0], [0, 0, 1, 0, 1], [0, 0, 0, 1, 0]]"

lemma nearestneighbor_path5:
  "nearestneighbor None path5 [0, 4] [0, 1] = Some [[1, 1, 1, 0, 0], [0, 0, 0, 1, 1]]"
  by code_simp

text \<open>
  Claim C2.  On the unit path the Python branch labels vertex 1 like vertex 0 and vertex 3
  like vertex 4, as claimed.  The candidate distance is however \<open>d[i] + WV[j]\<close>, where \<open>j\<close> is
  a vertex and \<open>WV\<close> is indexed by the position of an edge in the list of nonzero entries.
  On the path \<open>0 - 1 - 2\<close> with \<open>w(0,1) = 5\<close> and \<open>w(1,2) = 1\<close>, labelled at both ends, the
  values are \<open>WV = [5,5,1,1]\<close>, vertex 1 is offered \<open>0 + WV[1] = 5\<close> from either end, and it keeps
  the label of vertex 0 although vertex 2 is at distance 1.
\<close>

theorem nearestneighbor_wrong_weight:
  "nearestneighbor None [[0, 5, 0], [5, 0, 1], [0, 1, 0]] [0, 2] [0, 1] = Some [[1, 1, 0], [0, 0, 1]]"
  by code_simp

text \<open>
  Claim C8.  On the graph with the two edges \<open>{0,1}\<close> and \<open>{2,3}\<close>, labelled at 2 and 3 with
  the labels 0 and 1, the vertices 0 and 1 are not reached and keep \<open>l = -1\<close>.  The result is
  built from \<^verbatim>\<open>u[l]\<close>, and \<^verbatim>\<open>u[-1]\<close> is the last entry of \<open>u\<close>: both get the label 1 of
  vertex 3.  The call returns, but nothing in the result tells that they were not reached.
\<close>

theorem nearestneighbor_unreachable_labelled:
  "nearestneighbor None [[0, 1, 0, 0], [1, 0, 0, 0], [0, 0, 0, 1], [0, 0, 1, 0]] [2, 3] [0, 1]
     = Some [[0, 0, 1, 0], [1, 1, 0, 1]]"
  by code_simp

end
